theory Spec2Isabelle
  imports Complex_Main "HOL-Library.List_Lexorder" "HOL-Library.Multiset"
begin

section \<open>PyAnimats: shallow embedding of \<open>pyanimats.py\<close> and \<open>fitness_functions.py\<close>\<close>

text \<open>
  Python exceptions that the modelled code can raise. Every function of the model that can
  raise returns \<open>error + 'a\<close>, with \<open>Inl\<close> the exception.
\<close>

datatype error = ValueError | ZeroDivisionError | IndexError | NameError | TypeError

subsection \<open>Command-line overrides (\<open>main\<close>, lines 124-155)\<close>

text \<open>
  The converters \<open>int\<close>, \<open>float\<close> and \<open>str\<close> named in \<open>cli_opt_to_param\<close>. They are
  Python builtins; the model takes their behaviour as the parameter \<open>conv\<close>, which may
  raise (\<open>int('x')\<close> is a ValueError).
\<close>

datatype ptype = PInt | PFloat | PStr

text \<open>The dictionary \<open>cli_opt_to_param\<close>, in its source order, entry for entry.\<close>

definition cli_opt_to_param :: "(string \<times> string \<times> ptype) list" where
  "cli_opt_to_param =
    [(''--rng-seed'',        ''rng_seed'', PInt),
     (''--snapshot'',        ''snapshot_frequency'', PInt),
     (''--status-interval'', ''status_interval'', PInt),
     (''--min-snapshots'',   ''min_snapshots'', PInt),
     (''--log-interval'',    ''log_interval'', PInt),
     (''--num-samples'',     ''num_samples'', PInt),
     (''--fitness'',         ''fitness_function'', PStr),
     (''--num-gen'',         ''ngen'', PInt),
     (''--pop-size'',        ''popsize'', PInt),
     (''--init-genome'',     ''init_genome'', PStr),
     (''--jumpstart'',       ''init_start_codons'', PInt),
     (''--num-sensors'',     ''num_sensors'', PInt),
     (''--num-hidden'',      ''num_hidden'', PInt),
     (''--num-motors'',      ''num_motors'', PInt),
     (''--world-width'',     ''world_width'', PInt),
     (''--world-height'',    ''world_height'', PInt),
     (''--mut-prob'',        ''mutation_prob'', PFloat),
     (''--dup-prob'',        ''duplication_prob'', PFloat),
     (''--del-prob'',        ''deletion_prob'', PFloat),
     (''--min-dup-del'',     ''min_dup_del_width'', PInt),
     (''--max-dup-del'',     ''min_dup_del_width'', PInt),
     (''--min-length'',      ''min_genome_length'', PInt),
     (''--max-length'',      ''max_genome_length'', PInt)]"

text \<open>
  The dict comprehension building \<open>cli_overrides\<close>: the items are visited in insertion
  order, an option whose argument is \<open>None\<close> is skipped, the converter is applied to the
  others, and a later entry with the same parameter name overwrites an earlier one.
  \<open>arguments\<close> is docopt's dictionary (\<open>None\<close> for an option that was not given).
\<close>

fun build_overrides ::
  "(ptype \<Rightarrow> string \<Rightarrow> error + 'v) \<Rightarrow> (string \<rightharpoonup> string) \<Rightarrow>
   (string \<times> string \<times> ptype) list \<Rightarrow> (string \<rightharpoonup> 'v) \<Rightarrow> error + (string \<rightharpoonup> 'v)" where
  "build_overrides conv arguments [] acc = Inr acc"
| "build_overrides conv arguments ((opt, name, ty) # rest) acc =
     (case arguments opt of
        None \<Rightarrow> build_overrides conv arguments rest acc
      | Some s \<Rightarrow>
          (case conv ty s of
             Inl e \<Rightarrow> Inl e
           | Inr v \<Rightarrow> build_overrides conv arguments rest (acc(name \<mapsto> v))))"

definition cli_overrides ::
  "(ptype \<Rightarrow> string \<Rightarrow> error + 'v) \<Rightarrow> (string \<rightharpoonup> string) \<Rightarrow> error + (string \<rightharpoonup> 'v)" where
  "cli_overrides conv arguments = build_overrides conv arguments cli_opt_to_param Map.empty"

subsection \<open>Most common states and state averaging (\<open>fitness_functions.py\<close>, lines 55-92)\<close>

text \<open>
  A state is one timestep's vector of unit states; a game is numpy's three-dimensional
  array (trials, timesteps, units). \<open>game.reshape(-1, game.shape[-1])\<close> lists the timestep
  rows of all trials in order.
\<close>

type_synonym state = "int list"

definition reshape :: "state list list \<Rightarrow> state list" where
  "reshape game = concat game"

text \<open>
  \<open>game[np.lexsort(game.T), :]\<close>: the rows in the stable order whose primary key is the last
  column, then the second to last, and so on; that is the lexicographic order of the
  reversed rows.
\<close>

definition lexsort_rows :: "state list \<Rightarrow> state list" where
  "lexsort_rows rows = sort_key rev rows"

text \<open>\<open>np.where(np.any(np.diff(sorted_game, axis=0), 1))[0]\<close>: the indices \<open>i\<close> whose next row differs.\<close>

definition diff_idx :: "state list \<Rightarrow> nat list" where
  "diff_idx sorted_game =
     filter (\<lambda>i. sorted_game ! (i + 1) \<noteq> sorted_game ! i) [0..<length sorted_game - 1]"

text \<open>\<open>np.diff\<close> of a one-dimensional array: the differences of neighbours, one fewer than the entries.\<close>

fun np_diff :: "int list \<Rightarrow> int list" where
  "np_diff (a # b # cs) = (b - a) # np_diff (b # cs)"
| "np_diff cs = []"

text \<open>Python's slice \<open>xs[:n]\<close>; a negative \<open>n\<close> counts from the end.\<close>

definition slice_to :: "int \<Rightarrow> 'a list \<Rightarrow> 'a list" where
  "slice_to n xs = (if 0 \<le> n then take (nat n) xs else take (length xs - nat (- n)) xs)"

text \<open>
  \<open>sorted(pairs, key=lambda x: x[1], reverse=True)\<close>: Python's sort is stable also with
  \<open>reverse=True\<close>, so this is the stable sort by descending count.
\<close>

definition sorted_by_count :: "(state \<times> int) list \<Rightarrow> (state \<times> int) list" where
  "sorted_by_count pairs = sort_key (\<lambda>x. - snd x) pairs"

text \<open>
  \<open>_most_common_states(game, n)\<close>; \<open>n = None\<close> stands for the default \<open>n=False\<close>.
  \<open>sorted_game[-1]\<close> raises IndexError on an array with no rows. \<open>zip\<close> stops at the
  shorter of its two arguments.
\<close>

definition most_common_states :: "state list list \<Rightarrow> int option \<Rightarrow> error + (state \<times> int) list" where
  "most_common_states game n =
     (let sorted_game = lexsort_rows (reshape game) in
      if sorted_game = [] then Inl IndexError
      else
        let didx = diff_idx sorted_game;
            unique_states = map (\<lambda>i. sorted_game ! i) didx @ [last sorted_game];
            counts = np_diff (- 1 # map int didx);
            n' = (case n of
                    None \<Rightarrow> int (length counts)
                  | Some m \<Rightarrow> if m > int (length counts) then int (length counts) else m)
        in Inr (slice_to n' (sorted_by_count (zip unique_states counts))))"

text \<open>\<open>sums.mean()\<close>: numpy's mean of an empty array is \<open>nan\<close> (with a warning, not an exception).\<close>

datatype npfloat = NaN | Fin real

definition np_mean :: "real list \<Rightarrow> npfloat" where
  "np_mean xs = (if xs = [] then NaN else Fin (sum_list xs / real (length xs)))"

text \<open>
  The wrapper returned by \<open>_average_over_game_states(func, n)\<close>, applied to \<open>ind\<close>.
  \<open>play_game\<close> is the simulator (\<open>ind.play_game()\<close>), \<open>func\<close> the wrapped per-state metric.
\<close>

definition average_over_game_states ::
  "('ind \<Rightarrow> state list list) \<Rightarrow> ('ind \<Rightarrow> state \<Rightarrow> int \<Rightarrow> real) \<Rightarrow> int option \<Rightarrow> 'ind \<Rightarrow> error + npfloat" where
  "average_over_game_states play_game func n ind =
     (let game = play_game ind in
      case most_common_states game n of
        Inl e \<Rightarrow> Inl e
      | Inr unique_states_and_counts \<Rightarrow>
          Inr (np_mean (map (\<lambda>(state, count). func ind state count) unique_states_and_counts)))"

text \<open>
  Auxiliary, for the proofs: the pairs \<open>zip(unique_states, counts)\<close> computed in one pass
  over the sorted rows. \<open>m\<close> is the number of rows equal to the head that were already
  passed. A run is emitted when the next row differs; the last run is not emitted
  (lemma \<open>pairs_eq_runs\<close> shows that this is what the source computes).
\<close>

fun runs :: "nat \<Rightarrow> 'a list \<Rightarrow> ('a \<times> int) list" where
  "runs m (x # y # ys) =
     (if y \<noteq> x then (x, int m + 1) # runs 0 (y # ys) else runs (m + 1) (y # ys))"
| "runs m ys = []"

text \<open>
  The tie-break as the specification words it, for comparison with the code: a returned
  state is encountered earlier in the game than every state of equal count that is left
  out. \<open>first_index\<close> is the position of the first occurrence.
\<close>

fun first_index :: "'a list \<Rightarrow> 'a \<Rightarrow> nat" where
  "first_index [] x = 0"
| "first_index (y # ys) x = (if x = y then 0 else Suc (first_index ys x))"

definition spec_ties_first_encountered :: "state list \<Rightarrow> (state \<times> int) list \<Rightarrow> bool" where
  "spec_ties_first_encountered rows res =
     (\<forall>(s, c) \<in> set res. \<forall>t \<in> set rows.
        t \<notin> fst ` set res \<and> count_list rows t = count_list rows s \<longrightarrow>
          first_index rows s < first_index rows t)"

subsection \<open>Animats\<close>

text \<open>
  The class \<open>Animat\<close> is not among the source files; \<open>pyanimats.py\<close> uses its attributes
  \<open>gen\<close> (the selector \<open>gen_of\<close>), \<open>parent\<close>, \<open>fitness.raw\<close>, \<open>fitness.value\<close>, \<open>alt_fitness\<close>, \<open>correct\<close>, \<open>incorrect\<close>
  and its methods \<open>fitness.set\<close>, \<open>mutate\<close> and \<open>lineage\<close>. An animat is a value here, its
  parent reference the parent's value: \<open>toolbox.clone\<close> is a deep copy, and no animat is
  changed after its offspring refer to it.
\<close>

datatype animat =
  Animat (genome: "int list") (gen_of: int) (fitness_raw: real) (fitness_value: real)
    (alt_fitness: "real list") (correct: int) (incorrect: int) (parent: "animat option")

fun set_genome :: "int list \<Rightarrow> animat \<Rightarrow> animat" where
  "set_genome g' (Animat g n r v alt c i p) = Animat g' n r v alt c i p"

fun set_gen :: "int \<Rightarrow> animat \<Rightarrow> animat" where
  "set_gen n' (Animat g n r v alt c i p) = Animat g n' r v alt c i p"

fun set_alt_fitness :: "real list \<Rightarrow> animat \<Rightarrow> animat" where
  "set_alt_fitness alt' (Animat g n r v alt c i p) = Animat g n r v alt' c i p"

fun set_counters :: "int \<times> int \<Rightarrow> animat \<Rightarrow> animat" where
  "set_counters (c', i') (Animat g n r v alt c i p) = Animat g n r v alt c' i' p"

fun set_parent :: "animat option \<Rightarrow> animat \<Rightarrow> animat" where
  "set_parent p' (Animat g n r v alt c i p) = Animat g n r v alt c i p'"

text \<open>
  Modelled from the spec: \<open>animat.fitness.set(raw)\<close> (class \<open>Animat\<close>, not among the source
  files) stores the raw fitness and the transformed fitness \<open>FITNESS_BASE ^ raw\<close>; the base
  is a positive constant of the configuration.
\<close>

fun fitness_set :: "real \<Rightarrow> real \<Rightarrow> animat \<Rightarrow> animat" where
  "fitness_set base raw (Animat g n r v alt c i p) = Animat g n raw (base powr raw) alt c i p"

text \<open>
  Modelled from the spec: a fresh \<open>Animat(experiment, init_genome)\<close> (class \<open>Animat\<close>, not
  among the source files) is of generation 0 and has no parent; its fitness fields are
  unset until it is evaluated (zero here).
\<close>

definition new_animat :: "int list \<Rightarrow> animat" where
  "new_animat init_genome = Animat init_genome 0 0 0 [] 0 0 None"

text \<open>
  Modelled from the spec: \<open>animat.lineage()\<close> (class \<open>Animat\<close>, not among the source files)
  follows the parent references from the animat to its root ancestor, the animat first.
\<close>

fun lineage :: "animat \<Rightarrow> animat list" where
  "lineage (Animat g n r v alt c i None) = [Animat g n r v alt c i None]"
| "lineage (Animat g n r v alt c i (Some p)) = Animat g n r v alt c i (Some p) # lineage p"

subsection \<open>The environment of a run\<close>

text \<open>
  What \<open>pyanimats.py\<close> calls outside itself, as parameters. \<open>'g\<close> is the state of the one
  random stream of the \<open>random\<close> module.
  \<^item> \<open>rand_below g n\<close>: the index that \<open>random.choice\<close> draws for a sequence of length \<open>n\<close>;
  \<^item> \<open>rand_random g\<close>: \<open>random.random()\<close>;
  \<^item> \<open>mutate_genome\<close>: \<open>Animat.mutate\<close>, which changes the genome and consumes random draws;
  \<^item> \<open>evaluate\<close>: \<open>toolbox.evaluate\<close>, the fitness function registered under the configured
    name (its lookup in the module's dictionary precedes the run and is not modelled); it
    returns a scalar or a tuple, and playing the game sets the animat's trial counters,
    returned first;
  \<^item> \<open>numpy_floats\<close>: whether the fitness values are \<open>numpy.float64\<close> (what \<open>mi\<close>, \<open>ex\<close> and
    \<open>sp\<close> return, and \<open>FITNESS_BASE ** raw\<close> then is) rather than Python numbers (what
    \<open>nat\<close> gives); the two kinds differ in what a division by zero does;
  \<^item> \<open>fitness_base\<close>: the constant \<open>FITNESS_BASE\<close>;
  \<^item> \<open>mstats_compile\<close>: \<open>mstats.compile\<close> of the deap library (the flag says whether the
    \<open>alt_fitness\<close> statistics are registered); numpy's reductions can raise;
  \<^item> \<open>hof_update\<close>: \<open>HallOfFame.update\<close> of the deap library, for a given \<open>maxsize\<close>;
  \<^item> \<open>clock k\<close>: what the \<open>k\<close>-th call of \<open>time()\<close> returns.
\<close>

datatype fit_result = Scalar real | Tuple "real list"

type_synonym stats = "(string \<times> real) list"

record 'g env =
  rand_below :: "'g \<Rightarrow> nat \<Rightarrow> nat \<times> 'g"
  rand_random :: "'g \<Rightarrow> real \<times> 'g"
  mutate_genome :: "int list \<Rightarrow> 'g \<Rightarrow> int list \<times> 'g"
  evaluate :: "animat \<Rightarrow> (int \<times> int) \<times> fit_result"
  numpy_floats :: bool
  fitness_base :: real
  mstats_compile :: "bool \<Rightarrow> animat list \<Rightarrow> error + stats"
  hof_update :: "nat \<Rightarrow> animat list \<Rightarrow> animat list \<Rightarrow> animat list"
  clock :: "nat \<Rightarrow> real"

subsection \<open>Selection (\<open>select\<close>, lines 75-94)\<close>

text \<open>Python's \<open>max\<close> of a list: ValueError on the empty list.\<close>

fun py_max :: "real list \<Rightarrow> error + real" where
  "py_max [] = Inl ValueError"
| "py_max (x # xs) = Inr (fold max xs x)"

text \<open>
  The inner loop \<open>while not done\<close> for one slot. \<open>random.choice\<close> raises IndexError on an empty
  sequence. The acceptance test is \<open>random.random() <= candidate.fitness.value / max_fitness\<close>,
  its left operand evaluated first. When \<open>max_fitness\<close> is zero the division depends on the
  kind of number: Python numbers raise ZeroDivisionError; \<open>numpy.float64\<close> raises nothing
  (a warning only) and gives \<open>inf\<close> for a positive dividend, which every draw is below, and
  \<open>-inf\<close> or \<open>nan\<close> for a negative or zero one, which no draw is below (a comparison with
  \<open>nan\<close> is false), so that the candidate is rejected and the loop goes on. The loop has no
  bound: a result \<open>None\<close> means that it never ends.
\<close>

partial_function (option) accept_loop ::
  "'g env \<Rightarrow> animat list \<Rightarrow> real \<Rightarrow> 'g \<Rightarrow> (error + animat \<times> 'g) option" where
  "accept_loop E animats max_fitness g =
     (if animats = [] then Some (Inl IndexError)
      else
        let (i, g1) = rand_below E g (length animats) in
        if \<not> i < length animats then Some (Inl IndexError)
        else
          let candidate = animats ! i;
              (u, g2) = rand_random E g1
          in
            if max_fitness = 0 then
              (if \<not> numpy_floats E then Some (Inl ZeroDivisionError)
               else if 0 < fitness_value candidate then Some (Inr (candidate, g2))
               else accept_loop E animats max_fitness g2)
            else if u \<le> fitness_value candidate / max_fitness then Some (Inr (candidate, g2))
            else accept_loop E animats max_fitness g2)"

text \<open>The outer loop \<open>for i in range(k)\<close>, \<open>chosen\<close> the list built so far.\<close>

fun select_slots ::
  "'g env \<Rightarrow> animat list \<Rightarrow> real \<Rightarrow> nat \<Rightarrow> 'g \<Rightarrow> animat list \<Rightarrow> (error + animat list \<times> 'g) option" where
  "select_slots E animats max_fitness 0 g chosen = Some (Inr (chosen, g))"
| "select_slots E animats max_fitness (Suc k) g chosen =
     (case accept_loop E animats max_fitness g of
        None \<Rightarrow> None
      | Some (Inl e) \<Rightarrow> Some (Inl e)
      | Some (Inr (candidate, g')) \<Rightarrow>
          select_slots E animats max_fitness k g' (chosen @ [candidate]))"

text \<open>\<open>select(animats, k)\<close>; \<open>range(k)\<close> is empty for a negative \<open>k\<close>.\<close>

definition select ::
  "'g env \<Rightarrow> animat list \<Rightarrow> int \<Rightarrow> 'g \<Rightarrow> (error + animat list \<times> 'g) option" where
  "select E animats k g =
     (case py_max (map fitness_value animats) of
        Inl e \<Rightarrow> Some (Inl e)
      | Inr max_fitness \<Rightarrow> select_slots E animats max_fitness (nat k) g [])"

text \<open>
  Rejection sampling as the specification words it, for comparison with \<open>select\<close>: one
  slot draws a candidate uniformly from the whole population and accepts it when the next
  draw of the stream is at most \<open>candidate.fitness / max_fitness\<close>, otherwise it redraws;
  \<open>k\<close> slots are filled one after the other from the same stream.
\<close>

inductive roulette_slot :: "'g env \<Rightarrow> animat list \<Rightarrow> real \<Rightarrow> 'g \<Rightarrow> animat \<Rightarrow> 'g \<Rightarrow> bool"
  for E :: "'g env" and animats :: "animat list" and max_fitness :: real where
  accept:
    "rand_below E g (length animats) = (i, g1) \<Longrightarrow> i < length animats \<Longrightarrow>
     rand_random E g1 = (u, g2) \<Longrightarrow> u \<le> fitness_value (animats ! i) / max_fitness \<Longrightarrow>
     roulette_slot E animats max_fitness g (animats ! i) g2"
| redraw:
    "rand_below E g (length animats) = (i, g1) \<Longrightarrow> i < length animats \<Longrightarrow>
     rand_random E g1 = (u, g2) \<Longrightarrow> \<not> u \<le> fitness_value (animats ! i) / max_fitness \<Longrightarrow>
     roulette_slot E animats max_fitness g2 c g3 \<Longrightarrow>
     roulette_slot E animats max_fitness g c g3"

inductive roulette :: "'g env \<Rightarrow> animat list \<Rightarrow> real \<Rightarrow> nat \<Rightarrow> 'g \<Rightarrow> animat list \<Rightarrow> 'g \<Rightarrow> bool"
  for E :: "'g env" and animats :: "animat list" and max_fitness :: real where
  no_slot: "roulette E animats max_fitness 0 g [] g"
| next_slot:
    "roulette_slot E animats max_fitness g c g1 \<Longrightarrow> roulette E animats max_fitness k g1 cs g2 \<Longrightarrow>
     roulette E animats max_fitness (Suc k) g (c # cs) g2"

subsection \<open>Evaluation (\<open>multi_fit_evaluate\<close>, \<open>single_fit_evaluate\<close>, lines 272-284)\<close>

text \<open>
  The loops over \<open>zip(pop, fitnesses)\<close>; \<open>toolbox.map\<close> is lazy, so each animat is evaluated
  and then updated before the next one is evaluated, and the first exception ends the
  loop. \<open>fitness[0]\<close> is a TypeError on a scalar and an IndexError on an empty tuple.
  The unused parameter \<open>gen\<close> is left out.
\<close>

fun multi_fit_evaluate :: "'g env \<Rightarrow> animat list \<Rightarrow> error + animat list" where
  "multi_fit_evaluate E [] = Inr []"
| "multi_fit_evaluate E (animat # pop) =
     (case evaluate E animat of
        (counters, Scalar x) \<Rightarrow> Inl TypeError
      | (counters, Tuple []) \<Rightarrow> Inl IndexError
      | (counters, Tuple (fitness0 # rest)) \<Rightarrow>
          (case multi_fit_evaluate E pop of
             Inl e \<Rightarrow> Inl e
           | Inr pop' \<Rightarrow>
               Inr (set_alt_fitness rest
                     (fitness_set (fitness_base E) fitness0 (set_counters counters animat)) # pop')))"

text \<open>A tuple handed to \<open>fitness.set\<close> is taken to be a TypeError (the exponent must be a number).\<close>

fun single_fit_evaluate :: "'g env \<Rightarrow> animat list \<Rightarrow> error + animat list" where
  "single_fit_evaluate E [] = Inr []"
| "single_fit_evaluate E (animat # pop) =
     (case evaluate E animat of
        (counters, Tuple xs) \<Rightarrow> Inl TypeError
      | (counters, Scalar fitness) \<Rightarrow>
          (case single_fit_evaluate E pop of
             Inl e \<Rightarrow> Inl e
           | Inr pop' \<Rightarrow>
               Inr (fitness_set (fitness_base E) fitness (set_counters counters animat) # pop')))"

subsection \<open>The generation loop (\<open>main\<close>, lines 157-366)\<close>

record Experiment =
  snapshot_frequency :: int
  status_interval :: int
  min_snapshots :: int
  log_interval :: int
  num_samples :: int
  fitness_function :: string
  ngen :: int
  popsize :: int
  init_genome :: "int list"

text \<open>
  What one call of \<open>save_data\<close> writes: the directory (\<open>None\<close> for \<open>OUTPUT_DIR\<close>, otherwise
  the numbers in \<open>snapshot-{snapshot}-gen-{gen}\<close>), the sampled lineages, the logbook and
  the hall of fame. The configuration and metadata files are left out.
\<close>

record save =
  save_dir :: "(nat \<times> int) option"
  save_lineages :: "animat list list"
  save_logbook :: "(int \<times> stats) list"
  save_hof :: "animat list"

text \<open>
  The variables of \<open>main\<close> that change during a run: the random stream, the number of
  \<open>time()\<close> calls made so far, the logbook (generation and compiled record), the hall of
  fame, the snapshot counter, \<open>snap_duration_start\<close>, and what was written to disk.
\<close>

record 'g run_state =
  rng :: 'g
  ticks :: nat
  logbook :: "(int \<times> stats) list"
  hall_of_fame :: "animat list"
  snapshot :: nat
  snap_duration_start :: real
  saved :: "save list"

text \<open>The result of a step that may raise or, through \<open>select\<close>, never return.\<close>

definition bindr :: "(error + 'a) option \<Rightarrow> ('a \<Rightarrow> (error + 'b) option) \<Rightarrow> (error + 'b) option" where
  "bindr m f = (case m of None \<Rightarrow> None | Some (Inl e) \<Rightarrow> Some (Inl e) | Some (Inr x) \<Rightarrow> f x)"

definition SNAPSHOT_TIME_INTERVAL :: "Experiment \<Rightarrow> real option" where
  "SNAPSHOT_TIME_INTERVAL ex =
     (if snapshot_frequency ex * 60 \<le> 0 then None
      else Some (real_of_int (snapshot_frequency ex * 60)))"

definition SNAPSHOT_GENERATION_INTERVAL :: "Experiment \<Rightarrow> int option" where
  "SNAPSHOT_GENERATION_INTERVAL ex =
     (if min_snapshots ex \<le> 0 then None else Some (ngen ex div min_snapshots ex))"

text \<open>Python's \<open>max(pop, key=...)\<close>: the first element with the greatest key.\<close>

fun max_by :: "('a \<Rightarrow> real) \<Rightarrow> 'a \<Rightarrow> 'a list \<Rightarrow> 'a" where
  "max_by key best [] = best"
| "max_by key best (x # xs) = max_by key (if key best < key x then x else best) xs"

text \<open>The slice \<open>xs[::step]\<close> for a positive step.\<close>

definition slice_step :: "nat \<Rightarrow> 'a list \<Rightarrow> 'a list" where
  "slice_step step xs = map (\<lambda>i. xs ! i) (filter (\<lambda>i. i mod step = 0) [0..<length xs])"

definition save_data ::
  "Experiment \<Rightarrow> bool \<Rightarrow> (nat \<times> int) option \<Rightarrow> int \<Rightarrow> animat list \<Rightarrow> 'g run_state \<Rightarrow>
   error + 'g run_state" where
  "save_data ex SAVE_ALL_LINEAGES output_dir gen pop st =
     (case (if SAVE_ALL_LINEAGES then Inr pop
            else (case pop of [] \<Rightarrow> Inl ValueError | a # as \<Rightarrow> Inr [max_by fitness_value a as])) of
        Inl e \<Rightarrow> Inl e
      | Inr to_save \<Rightarrow>
          let step = (if num_samples ex \<le> 0 then 1 else max (gen div num_samples ex) 1);
              lineages = map (\<lambda>animat. slice_step (nat step) (lineage animat)) to_save
          in Inr (st\<lparr>saved := saved st @
                   [\<lparr>save_dir = output_dir, save_lineages = lineages,
                     save_logbook = logbook st, save_hof = hall_of_fame st\<rparr>]\<rparr>))"

definition evaluate_pop :: "'g env \<Rightarrow> Experiment \<Rightarrow> animat list \<Rightarrow> error + animat list" where
  "evaluate_pop E ex pop =
     (if fitness_function ex = ''mat'' then multi_fit_evaluate E pop else single_fit_evaluate E pop)"

text \<open>\<open>record(pop, gen)\<close>; \<open>gen % 0\<close> raises ZeroDivisionError.\<close>

definition record_gen ::
  "'g env \<Rightarrow> Experiment \<Rightarrow> animat list \<Rightarrow> int \<Rightarrow> 'g run_state \<Rightarrow> error + 'g run_state" where
  "record_gen E ex pop gen st =
     (let st1 = st\<lparr>hall_of_fame := hof_update E (nat (popsize ex)) (hall_of_fame st) pop\<rparr> in
      if log_interval ex = 0 then Inl ZeroDivisionError
      else if gen mod log_interval ex = 0 then
        (case mstats_compile E (fitness_function ex = ''mat'') pop of
           Inl e \<Rightarrow> Inl e
         | Inr compiled \<Rightarrow> Inr (st1\<lparr>logbook := logbook st1 @ [(gen, compiled)]\<rparr>))
      else Inr st1)"

text \<open>The variation loop of \<open>process_gen\<close>: mutate \<open>offspring[i]\<close>, then set its parent to \<open>pop[i]\<close>.\<close>

fun vary :: "'g env \<Rightarrow> animat list \<Rightarrow> animat list \<Rightarrow> 'g \<Rightarrow> animat list \<times> 'g" where
  "vary E (child # offspring) (p # pop) g =
     (let (genome', g1) = mutate_genome E (genome child) g;
          (rest, g2) = vary E offspring pop g1
      in (set_parent (Some p) (set_genome genome' child) # rest, g2))"
| "vary E offspring pop g = ([], g)"

text \<open>
  \<open>process_gen(pop, gen)\<close>: selection, cloning (\<open>toolbox.clone\<close> is a deep copy, the identity
  on values) with the new generation number, variation, evaluation, recording.
\<close>

definition process_gen ::
  "'g env \<Rightarrow> Experiment \<Rightarrow> animat list \<Rightarrow> int \<Rightarrow> 'g run_state \<Rightarrow>
   (error + animat list \<times> 'g run_state) option" where
  "process_gen E ex pop gen st =
     bindr (select E pop (int (length pop)) (rng st)) (\<lambda>(pop, g1).
       let offspring = map (set_gen gen) pop;
           (offspring, g2) = vary E offspring pop g1
       in case evaluate_pop E ex offspring of
            Inl e \<Rightarrow> Some (Inl e)
          | Inr offspring \<Rightarrow>
              (case record_gen E ex offspring gen (st\<lparr>rng := g2\<rparr>) of
                 Inl e \<Rightarrow> Some (Inl e)
               | Inr st' \<Rightarrow> Some (Inr (offspring, st'))))"

text \<open>
  The snapshot condition \<open>current_time - snap_duration_start >= SNAPSHOT_TIME_INTERVAL or
  gen % SNAPSHOT_GENERATION_INTERVAL == 0\<close>. \<open>None\<close> is \<open>float('inf')\<close>: no finite time reaches
  it, and \<open>gen % inf\<close> is zero only for \<open>gen = 0\<close>. \<open>or\<close> evaluates its right operand, where
  \<open>gen % 0\<close> raises, only when the left one is false.
\<close>

definition snapshot_due :: "real option \<Rightarrow> int option \<Rightarrow> real \<Rightarrow> int \<Rightarrow> error + bool" where
  "snapshot_due time_interval gen_interval elapsed gen =
     (if (case time_interval of None \<Rightarrow> False | Some t \<Rightarrow> elapsed \<ge> t) then Inr True
      else (case gen_interval of
              None \<Rightarrow> Inr (gen = 0)
            | Some n \<Rightarrow> if n = 0 then Inl ZeroDivisionError else Inr (gen mod n = 0)))"

text \<open>
  The reporting step of an iteration: \<open>gen % status_interval\<close> raises on a zero interval;
  a status report calls \<open>time()\<close> twice. Printing is left out.
\<close>

definition reporting :: "Experiment \<Rightarrow> int \<Rightarrow> 'g run_state \<Rightarrow> error + 'g run_state" where
  "reporting ex gen st =
     (if status_interval ex = 0 then Inl ZeroDivisionError
      else if gen mod status_interval ex = 0 then Inr (st\<lparr>ticks := ticks st + 2\<rparr>)
      else Inr st)"

text \<open>
  The snapshotting step of an iteration: \<open>current_time = time()\<close>, the condition, and when it
  holds \<open>save_data\<close> into the snapshot directory, the counter's increment and a new
  \<open>snap_duration_start = time()\<close>.
\<close>

definition snapshotting ::
  "'g env \<Rightarrow> Experiment \<Rightarrow> bool \<Rightarrow> int \<Rightarrow> animat list \<Rightarrow> 'g run_state \<Rightarrow> error + 'g run_state" where
  "snapshotting E ex SAVE_ALL_LINEAGES gen population st =
     (let current_time = clock E (ticks st);
          st1 = st\<lparr>ticks := Suc (ticks st)\<rparr>
      in case snapshot_due (SNAPSHOT_TIME_INTERVAL ex) (SNAPSHOT_GENERATION_INTERVAL ex)
                (current_time - snap_duration_start st1) gen of
           Inl e \<Rightarrow> Inl e
         | Inr False \<Rightarrow> Inr st1
         | Inr True \<Rightarrow>
             (case save_data ex SAVE_ALL_LINEAGES (Some (snapshot st1, gen)) gen population st1 of
                Inl e \<Rightarrow> Inl e
              | Inr st2 \<Rightarrow>
                  Inr (st2\<lparr>snapshot := snapshot st2 + 1,
                          snap_duration_start := clock E (ticks st2),
                          ticks := Suc (ticks st2)\<rparr>)))"

text \<open>One iteration of \<open>for gen in range(1, experiment.ngen + 1)\<close>.\<close>

definition loop_body ::
  "'g env \<Rightarrow> Experiment \<Rightarrow> bool \<Rightarrow> int \<Rightarrow> animat list \<times> 'g run_state \<Rightarrow>
   (error + animat list \<times> 'g run_state) option" where
  "loop_body E ex SAVE_ALL_LINEAGES gen ps =
     bindr (process_gen E ex (fst ps) gen (snd ps)) (\<lambda>(population, st1).
       case reporting ex gen st1 of
         Inl e \<Rightarrow> Some (Inl e)
       | Inr st2 \<Rightarrow>
           (case snapshotting E ex SAVE_ALL_LINEAGES gen population st2 of
              Inl e \<Rightarrow> Some (Inl e)
            | Inr st3 \<Rightarrow> Some (Inr (population, st3))))"

fun gen_loop ::
  "'g env \<Rightarrow> Experiment \<Rightarrow> bool \<Rightarrow> int list \<Rightarrow> animat list \<times> 'g run_state \<Rightarrow>
   (error + animat list \<times> 'g run_state) option" where
  "gen_loop E ex SAVE_ALL_LINEAGES [] ps = Some (Inr ps)"
| "gen_loop E ex SAVE_ALL_LINEAGES (gen # gens) ps =
     bindr (loop_body E ex SAVE_ALL_LINEAGES gen ps) (gen_loop E ex SAVE_ALL_LINEAGES gens)"

text \<open>
  \<open>main\<close> up to the loop: the initial population, its evaluation and its record. Five
  \<open>time()\<close> calls are made before the loop, the fifth setting \<open>snap_duration_start\<close>; the
  snapshot counter starts at 1.
\<close>

definition init_run ::
  "'g env \<Rightarrow> Experiment \<Rightarrow> 'g \<Rightarrow> error + animat list \<times> 'g run_state" where
  "init_run E ex g0 =
     (let population = replicate (nat (popsize ex)) (new_animat (init_genome ex));
          st0 = \<lparr>rng = g0, ticks = 2, logbook = [], hall_of_fame = [], snapshot = 1,
                 snap_duration_start = 0, saved = []\<rparr>
      in case evaluate_pop E ex population of
           Inl e \<Rightarrow> Inl e
         | Inr population \<Rightarrow>
             (case record_gen E ex population 0 st0 of
                Inl e \<Rightarrow> Inl e
              | Inr st \<Rightarrow> Inr (population, st\<lparr>ticks := 5, snap_duration_start := clock E 4\<rparr>)))"

text \<open>The state after the first \<open>n\<close> generations of the loop.\<close>

definition run_gens ::
  "'g env \<Rightarrow> Experiment \<Rightarrow> bool \<Rightarrow> 'g \<Rightarrow> int \<Rightarrow> (error + animat list \<times> 'g run_state) option" where
  "run_gens E ex SAVE_ALL_LINEAGES g0 n =
     bindr (Some (init_run E ex g0)) (gen_loop E ex SAVE_ALL_LINEAGES [1..n])"

text \<open>
  \<open>main\<close>: the loop over \<open>range(1, ngen + 1)\<close>, one more \<open>time()\<close> call, and the final
  \<open>save_data(OUTPUT_DIR, gen, ...)\<close>. When the loop body never ran, the name \<open>gen\<close> is unbound
  and the final call raises NameError.
\<close>

definition main ::
  "'g env \<Rightarrow> Experiment \<Rightarrow> bool \<Rightarrow> 'g \<Rightarrow> (error + animat list \<times> 'g run_state) option" where
  "main E ex SAVE_ALL_LINEAGES g0 =
     bindr (run_gens E ex SAVE_ALL_LINEAGES g0 (ngen ex)) (\<lambda>(population, st).
       let st' = st\<lparr>ticks := Suc (ticks st)\<rparr> in
       if ngen ex < 1 then Some (Inl NameError)
       else (case save_data ex SAVE_ALL_LINEAGES None (ngen ex) population st' of
               Inl e \<Rightarrow> Some (Inl e)
             | Inr st'' \<Rightarrow> Some (Inr (population, st''))))"

text \<open>
  The wall-clock trigger never fires: it is disabled (\<open>snapshot_frequency \<le> 0\<close>), or no two
  readings of the clock are a full interval apart.
\<close>

definition timer_silent :: "'g env \<Rightarrow> Experiment \<Rightarrow> bool" where
  "timer_silent E ex =
     (case SNAPSHOT_TIME_INTERVAL ex of None \<Rightarrow> True | Some t \<Rightarrow> \<forall>i j. clock E i - clock E j < t)"

text \<open>What a finished run leaves behind: the generations in the logbook, and the directories written.\<close>

definition logged_generations ::
  "(error + animat list \<times> 'g run_state) option \<Rightarrow> int list option" where
  "logged_generations r =
     (case r of Some (Inr (population, st)) \<Rightarrow> Some (map fst (logbook st)) | _ \<Rightarrow> None)"

definition written_dirs ::
  "(error + animat list \<times> 'g run_state) option \<Rightarrow> (nat \<times> int) option list option" where
  "written_dirs r =
     (case r of Some (Inr (population, st)) \<Rightarrow> Some (map save_dir (saved st)) | _ \<Rightarrow> None)"

text \<open>
  A sufficient condition for a run to return: \<open>random.choice\<close> draws an index of the
  sequence, every acceptance draw is 0 (so that a candidate of positive fitness is accepted
  at once), the fitness base is positive, the fitness function returns what the configured
  evaluation expects, and the statistics of a non-empty population compile.
\<close>

definition accepting_env :: "'g env \<Rightarrow> Experiment \<Rightarrow> bool" where
  "accepting_env E ex \<longleftrightarrow>
     (\<forall>g n. 0 < n \<longrightarrow> fst (rand_below E g n) < n) \<and>
     (\<forall>g. fst (rand_random E g) \<le> 0) \<and>
     0 < fitness_base E \<and>
     (\<forall>a. case snd (evaluate E a) of
            Scalar x \<Rightarrow> fitness_function ex \<noteq> ''mat''
          | Tuple xs \<Rightarrow> fitness_function ex = ''mat'' \<and> xs \<noteq> []) \<and>
     (\<forall>alt pop. pop \<noteq> [] \<longrightarrow> (\<exists>r. mstats_compile E alt pop = Inr r))"

subsection \<open>A concrete environment\<close>

text \<open>
  A deterministic environment for the scenarios of the specification: the random stream is
  a counter, \<open>random.choice\<close> walks through the population, \<open>random.random()\<close> returns 0,
  mutation leaves the genome alone, the stub fitness function returns the animat's
  generation index as a Python number, the statistics record is the population size, the hall of fame keeps
  the newest animats, and the clock advances one second per call.
\<close>

definition stub_env :: "nat env" where
  "stub_env =
     \<lparr>rand_below = (\<lambda>g n. (g mod n, Suc g)),
      rand_random = (\<lambda>g. (0, Suc g)),
      mutate_genome = (\<lambda>genome g. (genome, g)),
      evaluate = (\<lambda>animat. ((0, 0), Scalar (real_of_int (gen_of animat)))),
      numpy_floats = False,
      fitness_base = 2,
      mstats_compile = (\<lambda>alt pop. if pop = [] then Inl ValueError else Inr [(''size'', real (length pop))]),
      hof_update = (\<lambda>maxsize hof pop. take maxsize (pop @ hof)),
      clock = (\<lambda>k. real k)\<rparr>"

definition stub_experiment :: "Experiment" where
  "stub_experiment =
     \<lparr>snapshot_frequency = 0, status_interval = 1, min_snapshots = 0, log_interval = 1,
      num_samples = 0, fitness_function = ''nat'', ngen = 3, popsize = 4, init_genome = []\<rparr>"

section \<open>Theorems\<close>

subsection \<open>Command-line overrides\<close>

text \<open>
  C8. The claim says that \<open>--max-dup-del\<close> sets the maximum duplication/deletion width and
  \<open>--min-dup-del\<close> the minimum one, independently. In the code both options are mapped to
  the parameter \<open>min_dup_del_width\<close>: when both are given, the only override produced is
  \<open>min_dup_del_width\<close>, holding the value given for \<open>--max-dup-del\<close>; no override of
  \<open>max_dup_del_width\<close> is ever produced.
\<close>

theorem cli_max_dup_del_overrides_min_width:
  "cli_overrides conv [''--min-dup-del'' \<mapsto> a, ''--max-dup-del'' \<mapsto> b] =
     (case conv PInt a of
        Inl e \<Rightarrow> Inl e
      | Inr va \<Rightarrow>
          (case conv PInt b of
             Inl e \<Rightarrow> Inl e
           | Inr vb \<Rightarrow> Inr [''min_dup_del_width'' \<mapsto> vb]))"
  by (simp add: cli_overrides_def cli_opt_to_param_def split: sum.split)

subsection \<open>Most common states\<close>


text \<open>The pairs that the source zips are the runs of the sorted rows, the last run left out.\<close>

lemma diff_idx_Cons2:
  "diff_idx (x # y # ys) = (if y \<noteq> x then [0] else []) @ map Suc (diff_idx (y # ys))"
proof -
  have "[0..<Suc (length ys)] = 0 # map Suc [0..<length ys]"
    by (simp add: upt_conv_Cons map_Suc_upt del: upt_Suc)
  then show ?thesis
    by (simp add: diff_idx_def filter_map comp_def del: upt_Suc)
qed

lemma diff_idx_short [simp]: "diff_idx [] = []" "diff_idx [x] = []"
  by (simp_all add: diff_idx_def)

lemma zip_runs:
  "i - p - 1 = int m \<Longrightarrow>
   zip (map (\<lambda>j. xs ! j) (diff_idx xs)) (np_diff (p # map (\<lambda>d. int d + i) (diff_idx xs))) = runs m xs"
proof (induction m xs arbitrary: i p rule: runs.induct)
  case (1 m x y ys)
  have ih1: "y \<noteq> x \<Longrightarrow> zip (map (\<lambda>j. (y # ys) ! j) (diff_idx (y # ys)))
       (np_diff (i # map (\<lambda>d. int d + (i + 1)) (diff_idx (y # ys)))) = runs 0 (y # ys)"
    using "1.IH"(1)[of "i + 1" i] by simp
  have ih2: "y = x \<Longrightarrow> zip (map (\<lambda>j. (y # ys) ! j) (diff_idx (y # ys)))
       (np_diff (p # map (\<lambda>d. int d + (i + 1)) (diff_idx (y # ys)))) = runs (m + 1) (y # ys)"
    using "1.IH"(2)[of "i + 1" p] "1.prems" by simp
  show ?case
  proof (cases "y = x")
    case True
    with ih2 show ?thesis by (simp add: diff_idx_Cons2 comp_def ac_simps)
  next
    case False
    with ih1 "1.prems" show ?thesis by (simp add: diff_idx_Cons2 comp_def ac_simps)
  qed
qed (simp_all)

lemma runs_fst_subset: "(s, c) \<in> set (runs m xs) \<Longrightarrow> s \<in> set xs"
  by (induction m xs rule: runs.induct) (auto split: if_splits)

lemma sorted_key_head_notin:
  assumes "sorted (map k (x # y # ys))" "inj k" "y \<noteq> x"
  shows "\<forall>z \<in> set (y # ys). k x < k z"
proof
  fix z assume z: "z \<in> set (y # ys)"
  from assms(1) have "k x \<le> k y" and "\<forall>z \<in> set (y # ys). k y \<le> k z" by auto
  moreover from assms(2,3) have "k x \<noteq> k y" by (auto dest: injD)
  ultimately show "k x < k z" using z by force
qed

lemma runs_count:
  "sorted (map k xs) \<Longrightarrow> inj k \<Longrightarrow> (s, c) \<in> set (runs m xs) \<Longrightarrow>
   c = int (count_list xs s) + (if s = hd xs then int m else 0)"
proof (induction m xs rule: runs.induct)
  case (1 m x y ys)
  show ?case
  proof (cases "y = x")
    case True
    with 1 show ?thesis by (auto split: if_splits)
  next
    case False
    have lt: "\<forall>z \<in> set (y # ys). k x < k z"
      using sorted_key_head_notin[OF "1.prems"(1,2) False] .
    then have xnotin: "x \<notin> set (y # ys)" by auto
    show ?thesis
    proof (cases "(s, c) = (x, int m + 1)")
      case True
      with xnotin show ?thesis by (auto simp: count_list_0_iff)
    next
      case False
      with \<open>y \<noteq> x\<close> "1.prems"(3) have mem: "(s, c) \<in> set (runs 0 (y # ys))" by auto
      then have "s \<in> set (y # ys)" by (rule runs_fst_subset)
      with xnotin have "s \<noteq> x" by auto
      moreover have "c = int (count_list (y # ys) s) + (if s = hd (y # ys) then int 0 else 0)"
        using "1.IH"(1)[OF \<open>y \<noteq> x\<close> _ "1.prems"(2) mem] "1.prems"(1) by simp
      ultimately show ?thesis by simp
    qed
  qed
qed simp_all

lemma runs_sorted:
  "sorted (map k xs) \<Longrightarrow> inj k \<Longrightarrow> sorted_wrt (\<lambda>a b. k (fst a) < k (fst b)) (runs m xs)"
proof (induction m xs rule: runs.induct)
  case (1 m x y ys)
  show ?case
  proof (cases "y = x")
    case True
    with 1 show ?thesis by auto
  next
    case False
    have lt: "\<forall>z \<in> set (y # ys). k x < k z"
      using sorted_key_head_notin[OF "1.prems"(1,2) False] .
    have "\<forall>p \<in> set (runs 0 (y # ys)). k x < k (fst p)"
      using lt runs_fst_subset[of _ _ 0 "y # ys"] by (metis prod.collapse)
    with False 1 show ?thesis by auto
  qed
qed simp_all

lemma runs_complete:
  "s \<in> set xs \<Longrightarrow> s \<noteq> last xs \<Longrightarrow> s \<in> fst ` set (runs m xs)"
proof (induction m xs rule: runs.induct)
  case (1 m x y ys)
  then show ?case by (cases "y = x") (auto simp: image_iff split: if_splits)
qed simp_all

lemma insort_key_stable_wrt:
  assumes "sorted_wrt (\<lambda>a b. f a < f b \<or> (f a = f b \<and> R a b)) ys" "\<forall>y \<in> set ys. R x y"
  shows "sorted_wrt (\<lambda>a b. f a < f b \<or> (f a = f b \<and> R a b)) (insort_key f x ys)"
  using assms by (induction ys) (auto simp: set_insort_key)

lemma sort_key_stable_wrt:
  "sorted_wrt R xs \<Longrightarrow> sorted_wrt (\<lambda>a b. f a < f b \<or> (f a = f b \<and> R a b)) (sort_key f xs)"
proof (induction xs)
  case (Cons x xs)
  then show ?case by (auto intro!: insort_key_stable_wrt)
qed simp

lemma length_np_diff [simp]: "length (np_diff (a # cs)) = length cs"
  by (induction cs arbitrary: a) auto

lemma pairs_eq_runs:
  "zip (map (\<lambda>i. sg ! i) (diff_idx sg) @ [last sg]) (np_diff (- 1 # map int (diff_idx sg))) = runs 0 sg"
proof -
  have "zip (map (\<lambda>i. sg ! i) (diff_idx sg) @ [last sg]) (np_diff (- 1 # map int (diff_idx sg)))
      = zip (map (\<lambda>i. sg ! i) (diff_idx sg)) (np_diff (- 1 # map int (diff_idx sg)))"
    by (simp add: zip_append1)
  also have "\<dots> = runs 0 sg"
    using zip_runs[of 0 "- 1" 0 sg] by simp
  finally show ?thesis .
qed

lemma strict_key_sorted_distinct:
  fixes k :: "'a \<Rightarrow> 'b::linorder"
  shows "sorted_wrt (\<lambda>a b. k a < k b) l \<Longrightarrow> distinct l"
  by (induction l) (auto dest: bspec)

lemma sorted_key_le_last: "sorted (map k xs) \<Longrightarrow> z \<in> set xs \<Longrightarrow> k z \<le> k (last xs)"
  by (induction xs) (auto split: if_splits)

lemma most_common_states_Some:
  assumes "reshape game \<noteq> []" "0 < n"
  shows "most_common_states game (Some n) =
           Inr (take (nat n) (sorted_by_count (runs 0 (lexsort_rows (reshape game)))))"
proof -
  let ?sg = "lexsort_rows (reshape game)"
  have ne: "?sg \<noteq> []" using assms(1) length_sort[of rev "reshape game"]
    unfolding lexsort_rows_def by (metis length_0_conv)
  have len: "length (sorted_by_count (runs 0 ?sg)) = length (diff_idx ?sg)"
    unfolding pairs_eq_runs[symmetric] sorted_by_count_def by simp
  show ?thesis
    using ne assms(2) len
    by (simp add: most_common_states_def Let_def pairs_eq_runs slice_to_def)
qed

text \<open>
  C5, as the code has it. For a game with at least one row and a positive \<open>n\<close>, the top-N
  call returns at most \<open>n\<close> pairs with distinct states of the game, each with its number of
  occurrences, in descending order of count; of two returned states with equal counts the
  one that is earlier in the order of \<open>np.lexsort\<close> (the reversed rows compared
  lexicographically) comes first. A state that is left out and is not the greatest of that
  order is left out only when \<open>n\<close> pairs are returned, and then each returned state has a
  higher count, or the same count and an earlier place in that order.
\<close>

theorem most_common_states_top_n:
  assumes "reshape game \<noteq> []" "0 < n"
  shows "\<exists>res. most_common_states game (Some n) = Inr res
     \<and> length res \<le> nat n
     \<and> distinct (map fst res)
     \<and> (\<forall>(s, c) \<in> set res. s \<in> set (reshape game) \<and> c = int (count_list (reshape game) s))
     \<and> sorted_wrt (\<lambda>(s, c) (s', c'). c' < c \<or> (c' = c \<and> rev s < rev s')) res
     \<and> (\<forall>s \<in> set (reshape game).
           s \<notin> fst ` set res \<and> (\<exists>t \<in> set (reshape game). rev s < rev t) \<longrightarrow>
             length res = nat n \<and>
             (\<forall>(s', c') \<in> set res. int (count_list (reshape game) s) < c' \<or>
                 (int (count_list (reshape game) s) = c' \<and> rev s' < rev s)))"
proof -
  let ?rows = "reshape game"
  let ?sg = "lexsort_rows ?rows"
  let ?pairs = "runs 0 ?sg"
  let ?sp = "sorted_by_count ?pairs"
  let ?res = "take (nat n) ?sp"
  let ?R = "\<lambda>a b :: state \<times> int. rev (fst a) < rev (fst b)"
  let ?S = "\<lambda>a b :: state \<times> int. - snd a < - snd b \<or> (- snd a = - snd b \<and> ?R a b)"
  have res: "most_common_states game (Some n) = Inr ?res"
    by (rule most_common_states_Some[OF assms])
  have sorted_sg: "sorted (map rev ?sg)" by (simp add: lexsort_rows_def)
  have inj: "inj (rev :: state \<Rightarrow> state)" by (simp add: inj_on_def)
  have set_sg: "set ?sg = set ?rows" by (simp add: lexsort_rows_def)
  have count_sg: "count_list ?sg s = count_list ?rows s" for s
    by (metis count_mset lexsort_rows_def mset_sort)
  have set_sp: "set ?sp = set ?pairs" by (simp add: sorted_by_count_def)
  have R_pairs: "sorted_wrt ?R ?pairs" by (rule runs_sorted[OF sorted_sg inj])
  have S_sp: "sorted_wrt ?S ?sp"
    unfolding sorted_by_count_def by (rule sort_key_stable_wrt[OF R_pairs])
  have pair_ok: "s \<in> set ?rows \<and> c = int (count_list ?rows s)" if "(s, c) \<in> set ?pairs" for s c
    using runs_count[OF sorted_sg inj that] runs_fst_subset[OF that] set_sg count_sg by simp
  have in_res: "p \<in> set ?pairs" if "p \<in> set ?res" for p
    using that set_sp by (auto dest: in_set_takeD)
  have c1: "length ?res \<le> nat n" by simp
  have c2: "distinct (map fst ?res)"
  proof -
    have "sorted_wrt (\<lambda>a b. rev a < rev b) (map fst ?pairs)"
      using R_pairs by (simp add: sorted_wrt_map)
    then have "distinct (map fst ?pairs)" by (rule strict_key_sorted_distinct)
    moreover have "mset (map fst ?sp) = mset (map fst ?pairs)"
      by (simp add: sorted_by_count_def)
    ultimately have "distinct (map fst ?sp)" by (metis mset_eq_imp_distinct_iff)
    then show ?thesis by (simp add: take_map[symmetric])
  qed
  have c3: "\<forall>(s, c) \<in> set ?res. s \<in> set ?rows \<and> c = int (count_list ?rows s)"
    using in_res pair_ok by blast
  have S_res: "sorted_wrt ?S ?res" using S_sp by (rule sorted_wrt_take)
  have c4: "sorted_wrt (\<lambda>(s, c) (s', c'). c' < c \<or> (c' = c \<and> rev s < rev s')) ?res"
    by (rule sorted_wrt_mono_rel[OF _ S_res]) auto
  have c5: "length ?res = nat n \<and>
             (\<forall>(s', c') \<in> set ?res. int (count_list ?rows s) < c' \<or>
                 (int (count_list ?rows s) = c' \<and> rev s' < rev s))"
    if s: "s \<in> set ?rows" and out: "s \<notin> fst ` set ?res" and t: "t \<in> set ?rows" "rev s < rev t"
    for s t
  proof -
    have "\<forall>z \<in> set ?sg. rev z \<le> rev (last ?sg)"
      using sorted_key_le_last[OF sorted_sg] by blast
    with t set_sg have "s \<noteq> last ?sg" by (metis leD)
    with s set_sg have "s \<in> fst ` set ?pairs" by (metis runs_complete)
    then obtain c where sc: "(s, c) \<in> set ?pairs" by auto
    with pair_ok have c: "c = int (count_list ?rows s)" by blast
    from sc set_sp have "(s, c) \<in> set (take (nat n) ?sp @ drop (nat n) ?sp)" by simp
    moreover from out have "(s, c) \<notin> set (take (nat n) ?sp)" by force
    ultimately have drop: "(s, c) \<in> set (drop (nat n) ?sp)"
      unfolding set_append by blast
    then have len: "nat n < length ?sp" by (metis drop_all empty_iff empty_set not_le)
    have "sorted_wrt ?S (take (nat n) ?sp @ drop (nat n) ?sp)" using S_sp by simp
    then have "\<forall>a \<in> set ?res. ?S a (s, c)" using drop unfolding sorted_wrt_append by blast
    with c len show ?thesis by auto
  qed
  show ?thesis
    apply (rule exI[of _ ?res])
    apply (intro conjI)
    apply (rule res)
    apply (rule c1)
    apply (rule c2)
    apply (rule c3)
    apply (rule c4)
    using c5 apply blast
    done
qed

theorem most_common_states_top_n_witness:
  "reshape [[[1], [0], [1], [0], [2]]] \<noteq> [] \<and> (0::int) < 1 \<and>
   (\<exists>res. most_common_states [[[1], [0], [1], [0], [2]]] (Some 1) = Inr res
     \<and> length res \<le> nat 1
     \<and> distinct (map fst res)
     \<and> sorted_wrt (\<lambda>(s, c) (s', c'). c' < c \<or> (c' = c \<and> rev s < rev s')) res)"
proof -
  have h1: "reshape [[[1], [0], [1], [0], [2]]] \<noteq> []" by (simp add: reshape_def)
  have h2: "(0::int) < 1" by simp
  from most_common_states_top_n[OF h1 h2] h1 h2 show ?thesis by blast
qed

text \<open>
  C5, as the claim states it, fails. In the game below the states \<open>[1]\<close> and \<open>[0]\<close> both occur
  twice and \<open>[1]\<close> is encountered first, yet the top-1 call returns \<open>[0]\<close>: ties are broken by
  the sorted order of the states, not by the order of first encounter.
\<close>

theorem most_common_states_tie_counterexample:
  "most_common_states [[[1], [0], [1], [0], [2]]] (Some 1) = Inr [([0], 2)] \<and>
   \<not> spec_ties_first_encountered (reshape [[[1], [0], [1], [0], [2]]]) [([0], 2)]"
  by (simp add: most_common_states_def reshape_def lexsort_rows_def diff_idx_def
      sorted_by_count_def slice_to_def Let_def spec_ties_first_encountered_def)

text \<open>
  The default call on any game with at least one row: every distinct state but the
  greatest of the sorted order is returned, one pair fewer than there are distinct states.
\<close>

lemma runs_below_last:
  fixes k :: "'a \<Rightarrow> 'b::linorder"
  shows "sorted (map k xs) \<Longrightarrow> inj k \<Longrightarrow> (s, c) \<in> set (runs m xs) \<Longrightarrow> k s < k (last xs)"
proof (induction m xs rule: runs.induct)
  case (1 m x y ys)
  show ?case
  proof (cases "y = x")
    case True
    with 1 show ?thesis by auto
  next
    case False
    have lt: "\<forall>z \<in> set (y # ys). k x < k z"
      using sorted_key_head_notin[OF "1.prems"(1,2) False] .
    show ?thesis
    proof (cases "(s, c) = (x, int m + 1)")
      case True
      with lt show ?thesis by (metis Pair_inject last_ConsR last_in_set list.discI)
    next
      case False
      with \<open>y \<noteq> x\<close> "1.prems"(3) have "(s, c) \<in> set (runs 0 (y # ys))" by auto
      from "1.IH"(1)[OF \<open>y \<noteq> x\<close> _ "1.prems"(2) this] "1.prems"(1) show ?thesis by simp
    qed
  qed
qed simp_all

lemma most_common_states_default:
  assumes "reshape game \<noteq> []"
  shows "\<exists>res. most_common_states game None = Inr res \<and>
           length res = card (set (reshape game)) - 1 \<and>
           fst ` set res = set (reshape game) - {last (lexsort_rows (reshape game))}"
proof -
  let ?sg = "lexsort_rows (reshape game)"
  let ?pairs = "runs 0 ?sg"
  have ne: "?sg \<noteq> []" using assms length_sort[of rev "reshape game"]
    unfolding lexsort_rows_def by (metis length_0_conv)
  have sorted_sg: "sorted (map rev ?sg)" by (simp add: lexsort_rows_def)
  have inj: "inj (rev :: state \<Rightarrow> state)" by (simp add: inj_on_def)
  have set_sg: "set ?sg = set (reshape game)" by (simp add: lexsort_rows_def)
  have len: "length (sorted_by_count ?pairs) = length (diff_idx ?sg)"
    unfolding pairs_eq_runs[symmetric] sorted_by_count_def by simp
  have res: "most_common_states game None = Inr (sorted_by_count ?pairs)"
    using ne len by (simp add: most_common_states_def Let_def pairs_eq_runs slice_to_def)
  have fsts: "fst ` set ?pairs = set ?sg - {last ?sg}"
  proof (intro equalityI subsetI)
    fix s assume "s \<in> fst ` set ?pairs"
    then obtain c where sc: "(s, c) \<in> set ?pairs" by auto
    from runs_below_last[OF sorted_sg inj sc] runs_fst_subset[OF sc]
    show "s \<in> set ?sg - {last ?sg}" by auto
  next
    fix s assume "s \<in> set ?sg - {last ?sg}"
    then show "s \<in> fst ` set ?pairs" using runs_complete[of s ?sg 0] by simp
  qed
  have "distinct (map fst ?pairs)"
    using runs_sorted[OF sorted_sg inj, of 0]
    by (intro strict_key_sorted_distinct[where k = rev]) (simp add: sorted_wrt_map)
  then have "length ?pairs = card (fst ` set ?pairs)"
    by (metis distinct_card length_map list.set_map)
  also have "\<dots> = card (set ?sg) - 1" unfolding fsts using ne by simp
  finally have "length (sorted_by_count ?pairs) = card (set (reshape game)) - 1"
    by (simp add: sorted_by_count_def set_sg)
  moreover have "fst ` set (sorted_by_count ?pairs) = set (reshape game) - {last ?sg}"
    using fsts set_sg by (simp add: sorted_by_count_def)
  ultimately show ?thesis using res by blast
qed

text \<open>
  C10. The claim says that the default call returns all \<open>u\<close> distinct states with counts that
  sum to the number of timestep rows. On a game of two timesteps with the distinct states
  \<open>[0]\<close> and \<open>[1]\<close> the code returns the single pair \<open>([0], 1)\<close>: \<open>counts\<close> has one entry fewer
  than \<open>unique_states\<close>, so \<open>zip\<close> drops the last state of the sorted order; one pair instead
  of two, counts summing to 1 instead of 2. Asking for \<open>n = 2\<close> returns the same single pair.
  Lemma \<open>most_common_states_default\<close> shows the same on every game: the last state of the
  sorted order is always left out.
\<close>

theorem most_common_states_drops_last_state:
  "most_common_states [[[0], [1]]] None = Inr [([0], 1)] \<and>
   most_common_states [[[0], [1]]] (Some 2) = Inr [([0], 1)] \<and>
   length (remdups (reshape [[[0], [1]]])) = 2 \<and>
   length (reshape [[[0], [1]]]) = 2"
  by (simp add: most_common_states_def reshape_def lexsort_rows_def diff_idx_def
      sorted_by_count_def slice_to_def Let_def)

text \<open>
  C4. The claim says that the wrapped fitness function returns the mean of the metric over
  all distinct states of the game. For the game of C10 and the metric that reads the
  state's only unit, the mean over the two distinct states is \<open>1/2\<close>; the code returns \<open>0\<close>,
  the mean over the single pair that \<open>_most_common_states\<close> returns. On a game that stays
  in one state the code returns \<open>nan\<close>.
\<close>

theorem average_over_game_states_misses_state:
  "average_over_game_states (\<lambda>ind. [[[0], [1]]]) (\<lambda>ind state count. real_of_int (hd state)) None ind
     = Inr (Fin 0) \<and>
   average_over_game_states (\<lambda>ind. [[[0], [0]]]) (\<lambda>ind state count. real_of_int (hd state)) None ind
     = Inr NaN"
  by (simp add: average_over_game_states_def most_common_states_def reshape_def lexsort_rows_def
      diff_idx_def sorted_by_count_def slice_to_def np_mean_def Let_def)

subsection \<open>Selection\<close>

text \<open>What the setters leave alone.\<close>

lemma set_alt_fitness_sel [simp]:
  "fitness_value (set_alt_fitness alt a) = fitness_value a"
  "fitness_raw (set_alt_fitness alt a) = fitness_raw a"
  "alt_fitness (set_alt_fitness alt a) = alt"
  "gen_of (set_alt_fitness alt a) = gen_of a"
  "parent (set_alt_fitness alt a) = parent a"
  "genome (set_alt_fitness alt a) = genome a"
  "correct (set_alt_fitness alt a) = correct a"
  "incorrect (set_alt_fitness alt a) = incorrect a"
  by (cases a; simp)+

lemma fitness_set_sel [simp]:
  "fitness_value (fitness_set b x a) = b powr x"
  "fitness_raw (fitness_set b x a) = x"
  "alt_fitness (fitness_set b x a) = alt_fitness a"
  "gen_of (fitness_set b x a) = gen_of a"
  "parent (fitness_set b x a) = parent a"
  "genome (fitness_set b x a) = genome a"
  "correct (fitness_set b x a) = correct a"
  "incorrect (fitness_set b x a) = incorrect a"
  by (cases a; simp)+

lemma set_counters_sel [simp]:
  "fitness_value (set_counters ci a) = fitness_value a"
  "fitness_raw (set_counters ci a) = fitness_raw a"
  "alt_fitness (set_counters ci a) = alt_fitness a"
  "gen_of (set_counters ci a) = gen_of a"
  "parent (set_counters ci a) = parent a"
  "genome (set_counters ci a) = genome a"
  "correct (set_counters ci a) = fst ci"
  "incorrect (set_counters ci a) = snd ci"
  by (cases a; cases ci; simp)+

lemma set_gen_sel [simp]:
  "gen_of (set_gen n a) = n" "parent (set_gen n a) = parent a"
  "fitness_value (set_gen n a) = fitness_value a" "genome (set_gen n a) = genome a"
  by (cases a; simp)+

lemma set_genome_sel [simp]:
  "gen_of (set_genome x a) = gen_of a" "parent (set_genome x a) = parent a"
  "fitness_value (set_genome x a) = fitness_value a" "genome (set_genome x a) = x"
  by (cases a; simp)+

lemma set_parent_sel [simp]:
  "gen_of (set_parent p a) = gen_of a" "parent (set_parent p a) = p"
  "fitness_value (set_parent p a) = fitness_value a" "genome (set_parent p a) = genome a"
  by (cases a; simp)+

lemma py_max_nonempty:
  "xs \<noteq> [] \<Longrightarrow> py_max xs = Inr (Max (set xs))"
  by (cases xs) (simp_all add: Max.set_eq_fold[symmetric])

text \<open>
  The loop of one slot returns exactly the candidates that the relation \<open>roulette_slot\<close>
  derives, with the stream in the same position; it raises nothing when \<open>max_fitness\<close> is
  not zero and the drawn index is in range.
\<close>

lemma accept_loop_sound_aux:
  "accept_loop E animats m g = Some r \<Longrightarrow>
   m \<noteq> 0 \<longrightarrow> (\<forall>g. fst (rand_below E g (length animats)) < length animats) \<longrightarrow>
   animats \<noteq> [] \<longrightarrow> (\<exists>c g'. r = Inr (c, g') \<and> roulette_slot E animats m g c g')"
proof (rule accept_loop.raw_induct[where P = "\<lambda>E animats m g r.
   m \<noteq> 0 \<longrightarrow> (\<forall>g. fst (rand_below E g (length animats)) < length animats) \<longrightarrow>
   animats \<noteq> [] \<longrightarrow> (\<exists>c g'. r = Inr (c, g') \<and> roulette_slot E animats m g c g')"], goal_cases)
  case (1 loop E animats m g r)
  show ?case
  proof (intro impI)
    assume m: "m \<noteq> 0" and inr: "\<forall>g. fst (rand_below E g (length animats)) < length animats"
      and ne: "animats \<noteq> []"
    obtain i g1 where rb: "rand_below E g (length animats) = (i, g1)" by force
    obtain u g2 where rr: "rand_random E g1 = (u, g2)" by force
    have i: "i < length animats" using inr rb by (metis fst_conv)
    from 1(3) rb rr i m ne
    have eq: "(if u \<le> fitness_value (animats ! i) / m then Some (Inr (animats ! i, g2))
               else loop E animats m g2) = Some r"
      by (simp add: Let_def)
    show "\<exists>c g'. r = Inr (c, g') \<and> roulette_slot E animats m g c g'"
    proof (cases "u \<le> fitness_value (animats ! i) / m")
      case True
      with eq have "r = Inr (animats ! i, g2)" by simp
      moreover have "roulette_slot E animats m g (animats ! i) g2"
        using rb i rr True by (rule roulette_slot.accept)
      ultimately show ?thesis by blast
    next
      case False
      with eq have "loop E animats m g2 = Some r" by simp
      from 1(2)[OF this] m inr ne obtain c g' where
        r: "r = Inr (c, g')" and slot: "roulette_slot E animats m g2 c g'" by blast
      have "roulette_slot E animats m g c g'"
        using rb i rr False slot by (rule roulette_slot.redraw)
      with r show ?thesis by blast
    qed
  qed
qed

lemma accept_loop_sound:
  assumes "accept_loop E animats m g = Some r" and "m \<noteq> 0"
    and "\<forall>g. fst (rand_below E g (length animats)) < length animats" and "animats \<noteq> []"
  shows "\<exists>c g'. r = Inr (c, g') \<and> roulette_slot E animats m g c g'"
  using accept_loop_sound_aux[OF assms(1)] assms(2-) by blast

lemma accept_loop_complete:
  "roulette_slot E animats m g c g' \<Longrightarrow> m \<noteq> 0 \<Longrightarrow>
   accept_loop E animats m g = Some (Inr (c, g'))"
proof (induction rule: roulette_slot.induct)
  case (accept g i g1 u g2)
  then show ?case by (subst accept_loop.simps) auto
next
  case (redraw g i g1 u g2 c g3)
  then show ?case by (subst accept_loop.simps) auto
qed

lemma select_slots_sound:
  assumes "m \<noteq> 0" "\<forall>g. fst (rand_below E g (length animats)) < length animats" "animats \<noteq> []"
  shows "select_slots E animats m k g chosen0 = Some r \<Longrightarrow>
         \<exists>cs g'. r = Inr (chosen0 @ cs, g') \<and> roulette E animats m k g cs g'"
proof (induction k arbitrary: g chosen0)
  case 0
  then show ?case by (auto intro: roulette.no_slot)
next
  case (Suc k)
  from Suc.prems obtain r1 where al: "accept_loop E animats m g = Some r1"
    by (auto split: option.splits)
  from accept_loop_sound[OF al assms] obtain c g1 where
    r1: "r1 = Inr (c, g1)" and slot: "roulette_slot E animats m g c g1" by blast
  from Suc.prems al r1 have "select_slots E animats m k g1 (chosen0 @ [c]) = Some r" by simp
  from Suc.IH[OF this] obtain cs g' where
    r: "r = Inr ((chosen0 @ [c]) @ cs, g')" and rest: "roulette E animats m k g1 cs g'" by blast
  have "roulette E animats m (Suc k) g (c # cs) g'" using slot rest by (rule roulette.next_slot)
  with r show ?case by (intro exI[of _ "c # cs"] exI[of _ g']) simp
qed

lemma select_slots_complete:
  "roulette E animats m k g cs g' \<Longrightarrow> m \<noteq> 0 \<Longrightarrow>
   select_slots E animats m k g chosen0 = Some (Inr (chosen0 @ cs, g'))"
proof (induction arbitrary: chosen0 rule: roulette.induct)
  case (no_slot g)
  then show ?case by simp
next
  case (next_slot g c g1 k cs g2)
  then show ?case by (simp add: accept_loop_complete)
qed

lemma roulette_length: "roulette E animats m k g cs g' \<Longrightarrow> length cs = k"
  by (induction rule: roulette.induct) auto

lemma roulette_slot_member: "roulette_slot E animats m g c g' \<Longrightarrow> c \<in> set animats"
  by (induction rule: roulette_slot.induct) auto

lemma roulette_member: "roulette E animats m k g cs g' \<Longrightarrow> set cs \<subseteq> set animats"
proof (induction rule: roulette.induct)
  case (no_slot g)
  show ?case by simp
next
  case (next_slot g c g1 k cs g2)
  from next_slot.hyps(1) have "c \<in> set animats" by (rule roulette_slot_member)
  with next_slot.IH show ?case by simp
qed

text \<open>
  C2. For a non-empty population with a positive transformed fitness, and a stream whose
  index draws are in range, \<open>select\<close> returns \<open>chosen\<close> exactly when rejection sampling as
  the specification words it (the relation \<open>roulette\<close>, with \<open>max_fitness\<close> the maximum of
  the transformed fitness over the population) fills the \<open>k\<close> slots with \<open>chosen\<close> from the
  same stream: each slot draws candidates from the whole population and accepts the
  first one whose next draw is at most \<open>candidate.fitness / max_fitness\<close>. It raises
  nothing, and what it returns are \<open>k\<close> animats of the population. When no candidate is
  ever accepted, neither side returns.
\<close>

theorem select_is_rejection_sampling:
  assumes "animats \<noteq> []" and "\<exists>a \<in> set animats. 0 < fitness_value a"
    and "\<forall>g. fst (rand_below E g (length animats)) < length animats"
  shows "(select E animats k g = Some (Inr (chosen, g')) \<longleftrightarrow>
           roulette E animats (Max (fitness_value ` set animats)) (nat k) g chosen g')
       \<and> select E animats k g \<noteq> Some (Inl e)
       \<and> (select E animats k g = Some (Inr (chosen, g')) \<longrightarrow>
            length chosen = nat k \<and> set chosen \<subseteq> set animats)"
proof -
  let ?m = "Max (fitness_value ` set animats)"
  have mx: "py_max (map fitness_value animats) = Inr ?m"
    using assms(1) py_max_nonempty[of "map fitness_value animats"] by simp
  have "0 < ?m" using assms(1,2) by (auto simp: Max_gr_iff)
  then have m0: "?m \<noteq> 0" by simp
  have sel: "select E animats k g = select_slots E animats ?m (nat k) g []"
    by (simp add: select_def mx)
  have iff: "select E animats k g = Some (Inr (chosen, g')) \<longleftrightarrow>
           roulette E animats ?m (nat k) g chosen g'"
  proof
    assume "select E animats k g = Some (Inr (chosen, g'))"
    then have "select_slots E animats ?m (nat k) g [] = Some (Inr (chosen, g'))"
      unfolding sel .
    from select_slots_sound[OF m0 assms(3,1) this]
    show "roulette E animats ?m (nat k) g chosen g'" by simp
  next
    assume "roulette E animats ?m (nat k) g chosen g'"
    from select_slots_complete[OF this m0, of "[]"]
    show "select E animats k g = Some (Inr (chosen, g'))" unfolding sel by simp
  qed
  have noerr: "select E animats k g \<noteq> Some (Inl e)"
  proof
    assume "select E animats k g = Some (Inl e)"
    then have "select_slots E animats ?m (nat k) g [] = Some (Inl e)" unfolding sel .
    from select_slots_sound[OF m0 assms(3,1) this] show False by simp
  qed
  have len: "select E animats k g = Some (Inr (chosen, g')) \<longrightarrow>
            length chosen = nat k \<and> set chosen \<subseteq> set animats"
    using roulette_length[of E animats ?m "nat k" g chosen g']
      roulette_member[of E animats ?m "nat k" g chosen g'] unfolding iff by blast
  from iff noerr len show ?thesis by (intro conjI)
qed

lemma select_example:
  "select (stub_env\<lparr>rand_random := (\<lambda>g. (real (g mod 4) / 4, Suc g))\<rparr>)
     [Animat [] 0 0 1 [] 0 0 None, Animat [] 0 0 4 [] 0 0 None] 1 2 =
   Some (Inr ([Animat [] 0 0 1 [] 0 0 None], 6))"
proof -
  define E where "E = stub_env\<lparr>rand_random := (\<lambda>g. (real (g mod 4) / 4, Suc g))\<rparr>"
  define P where "P = [Animat [] 0 0 1 [] 0 0 None, Animat [] 0 0 4 [] 0 0 None]"
  have rb: "rand_below E g 2 = (g mod 2, Suc g)" for g by (simp add: E_def stub_env_def)
  have rr: "rand_random E g = (real (g mod 4) / 4, Suc g)" for g by (simp add: E_def stub_env_def)
  have P: "P \<noteq> []" "length P = 2" "P ! 0 = Animat [] 0 0 1 [] 0 0 None" by (simp_all add: P_def)
  have a2: "accept_loop E P 4 4 = Some (Inr (Animat [] 0 0 1 [] 0 0 None, 6))"
    by (subst accept_loop.simps) (simp add: rb rr P Let_def)
  have a1: "accept_loop E P 4 2 = Some (Inr (Animat [] 0 0 1 [] 0 0 None, 6))"
    by (subst accept_loop.simps) (simp add: rb rr P Let_def a2)
  have "select E P 1 2 = Some (Inr ([Animat [] 0 0 1 [] 0 0 None], 6))"
    by (simp add: select_def a1[unfolded P_def] P_def)
  then show ?thesis unfolding E_def P_def .
qed

theorem select_is_rejection_sampling_witness:
  "select (stub_env\<lparr>rand_random := (\<lambda>g. (real (g mod 4) / 4, Suc g))\<rparr>)
     [Animat [] 0 0 1 [] 0 0 None, Animat [] 0 0 4 [] 0 0 None] 1 2 =
     Some (Inr ([Animat [] 0 0 1 [] 0 0 None], 6)) \<and>
   roulette (stub_env\<lparr>rand_random := (\<lambda>g. (real (g mod 4) / 4, Suc g))\<rparr>)
     [Animat [] 0 0 1 [] 0 0 None, Animat [] 0 0 4 [] 0 0 None]
     (Max (fitness_value ` set [Animat [] 0 0 1 [] 0 0 None, Animat [] 0 0 4 [] 0 0 None]))
     (nat 1) 2 [Animat [] 0 0 1 [] 0 0 None] 6"
proof -
  let ?E = "stub_env\<lparr>rand_random := (\<lambda>g. (real (g mod 4) / 4, Suc g))\<rparr>"
  let ?P = "[Animat [] 0 0 1 [] 0 0 None, Animat [] 0 0 4 [] 0 0 None]"
  have h1: "?P \<noteq> []" by simp
  have h2: "\<exists>a \<in> set ?P. 0 < fitness_value a" by simp
  have h3: "\<forall>g. fst (rand_below ?E g (length ?P)) < length ?P" by (simp add: stub_env_def)
  from select_is_rejection_sampling[OF h1 h2 h3, of 1 2 "[Animat [] 0 0 1 [] 0 0 None]" 6]
    select_example
  show ?thesis by blast
qed

lemma zero_max_fitness_raises:
  assumes "animats \<noteq> []" and "\<forall>a \<in> set animats. fitness_value a = 0" and "0 < k"
    and "fst (rand_below E g (length animats)) < length animats" and "\<not> numpy_floats E"
  shows "select E animats k g = Some (Inl ZeroDivisionError)"
proof -
  have "fitness_value ` set animats = {0}" using assms(1,2) by (cases animats) auto
  then have mx: "py_max (map fitness_value animats) = Inr 0"
    using assms(1) py_max_nonempty[of "map fitness_value animats"] by simp
  obtain k' where k: "nat k = Suc k'" using assms(3) by (cases "nat k") auto
  obtain i g1 where rb: "rand_below E g (length animats) = (i, g1)" by force
  with assms(4) have i: "i < length animats" by simp
  have "accept_loop E animats 0 g = Some (Inl ZeroDivisionError)"
    using assms(1,5) rb i by (subst accept_loop.simps) (simp add: Let_def split: prod.split)
  then show ?thesis by (simp add: select_def mx k)
qed

text \<open>
  With \<open>max_fitness\<close> zero and every fitness value zero, the loop of one slot accepts no
  candidate, whatever the kind of number; with \<open>numpy.float64\<close> values and index draws in
  range it does not end.
\<close>

lemma accept_loop_zero_no_accept:
  "accept_loop E animats m g = Some r \<Longrightarrow>
   m = 0 \<longrightarrow> (\<forall>a \<in> set animats. fitness_value a = 0) \<longrightarrow> (\<forall>c g'. r \<noteq> Inr (c, g'))"
proof (rule accept_loop.raw_induct[where P = "\<lambda>E animats m g r.
   m = 0 \<longrightarrow> (\<forall>a \<in> set animats. fitness_value a = 0) \<longrightarrow> (\<forall>c g'. r \<noteq> Inr (c, g'))"], goal_cases)
  case (1 loop E animats m g r)
  show ?case
  proof (intro impI)
    assume m: "m = 0" and z: "\<forall>a \<in> set animats. fitness_value a = 0"
    obtain i g1 where rb: "rand_below E g (length animats) = (i, g1)" by force
    obtain u g2 where rr: "rand_random E g1 = (u, g2)" by force
    show "\<forall>c g'. r \<noteq> Inr (c, g')"
    proof (cases "animats \<noteq> [] \<and> i < length animats \<and> numpy_floats E")
      case True
      then have "fitness_value (animats ! i) = 0" using z by simp
      with 1(3) rb rr m True have "loop E animats m g2 = Some r" by (simp add: Let_def)
      from 1(2)[OF this] m z show ?thesis by blast
    next
      case False
      with 1(3) rb rr m show ?thesis by (auto simp: Let_def split: if_splits)
    qed
  qed
qed

lemma accept_loop_zero_numpy_aux:
  "accept_loop E animats m g = Some r \<Longrightarrow>
   m = 0 \<longrightarrow> numpy_floats E \<longrightarrow> (\<forall>a \<in> set animats. fitness_value a = 0) \<longrightarrow> animats \<noteq> [] \<longrightarrow>
   (\<forall>g. fst (rand_below E g (length animats)) < length animats) \<longrightarrow> False"
proof (rule accept_loop.raw_induct[where P = "\<lambda>E animats m g r.
   m = 0 \<longrightarrow> numpy_floats E \<longrightarrow> (\<forall>a \<in> set animats. fitness_value a = 0) \<longrightarrow> animats \<noteq> [] \<longrightarrow>
   (\<forall>g. fst (rand_below E g (length animats)) < length animats) \<longrightarrow> False"], goal_cases)
  case (1 loop E animats m g r)
  show ?case
  proof (intro impI)
    assume m: "m = 0" and np: "numpy_floats E" and z: "\<forall>a \<in> set animats. fitness_value a = 0"
      and ne: "animats \<noteq> []" and inr: "\<forall>g. fst (rand_below E g (length animats)) < length animats"
    obtain i g1 where rb: "rand_below E g (length animats) = (i, g1)" by force
    obtain u g2 where rr: "rand_random E g1 = (u, g2)" by force
    have i: "i < length animats" using inr rb by (metis fst_conv)
    then have "fitness_value (animats ! i) = 0" using z by simp
    with 1(3) rb rr m np ne i have "loop E animats m g2 = Some r" by (simp add: Let_def)
    from 1(2)[OF this] m np z ne inr show False by blast
  qed
qed

lemma accept_loop_zero_numpy:
  assumes "numpy_floats E" and "\<forall>a \<in> set animats. fitness_value a = 0" and "animats \<noteq> []"
    and "\<forall>g. fst (rand_below E g (length animats)) < length animats"
  shows "accept_loop E animats 0 g = None"
proof (cases "accept_loop E animats 0 g")
  case (Some r)
  from accept_loop_zero_numpy_aux[OF this] assms show ?thesis by blast
qed simp

lemma all_zero_max:
  assumes "animats \<noteq> []" and "\<forall>a \<in> set animats. fitness_value a = 0"
  shows "py_max (map fitness_value animats) = Inr 0"
proof -
  have "fitness_value ` set animats = {0}" using assms by (cases animats) auto
  then show ?thesis using assms(1) py_max_nonempty[of "map fitness_value animats"] by simp
qed

text \<open>
  C1, as the code has it. \<open>select\<close> has no fallback for a population whose transformed
  fitness values are all zero: \<open>max_fitness\<close> is zero and the acceptance test divides by
  it. For a non-empty population of that kind and every \<open>k \<ge> 1\<close> the call returns no
  animats: with Python numbers the first acceptance test raises ZeroDivisionError; with
  \<open>numpy.float64\<close> values the quotient is \<open>nan\<close>, no candidate is ever accepted and the call
  does not return. For \<open>k \<le> 0\<close> it returns the empty list; on the empty population \<open>max\<close>
  raises ValueError.
\<close>

theorem select_all_zero_raises:
  "(animats = [] \<longrightarrow> select E animats k g = Some (Inl ValueError)) \<and>
   (animats \<noteq> [] \<and> (\<forall>a \<in> set animats. fitness_value a = 0) \<longrightarrow>
      (k \<le> 0 \<longrightarrow> select E animats k g = Some (Inr ([], g))) \<and>
      (0 < k \<longrightarrow>
         (\<forall>chosen g'. select E animats k g \<noteq> Some (Inr (chosen, g'))) \<and>
         (\<not> numpy_floats E \<and> fst (rand_below E g (length animats)) < length animats \<longrightarrow>
            select E animats k g = Some (Inl ZeroDivisionError)) \<and>
         (numpy_floats E \<and> (\<forall>g. fst (rand_below E g (length animats)) < length animats) \<longrightarrow>
            select E animats k g = None)))"
proof (intro conjI impI allI)
  assume "animats = []"
  then show "select E animats k g = Some (Inl ValueError)" by (simp add: select_def)
next
  assume h: "animats \<noteq> [] \<and> (\<forall>a \<in> set animats. fitness_value a = 0)" and k: "k \<le> 0"
  from h have "py_max (map fitness_value animats) = Inr 0" by (simp add: all_zero_max)
  with k show "select E animats k g = Some (Inr ([], g))" by (simp add: select_def)
next
  fix chosen g'
  assume h: "animats \<noteq> [] \<and> (\<forall>a \<in> set animats. fitness_value a = 0)" and k: "0 < k"
  from h have mx: "py_max (map fitness_value animats) = Inr 0" by (simp add: all_zero_max)
  obtain k' where k': "nat k = Suc k'" using k by (cases "nat k") auto
  show "select E animats k g \<noteq> Some (Inr (chosen, g'))"
  proof
    assume "select E animats k g = Some (Inr (chosen, g'))"
    then obtain c g1 where "accept_loop E animats 0 g = Some (Inr (c, g1))"
      by (auto simp: select_def mx k' split: option.splits sum.splits)
    from accept_loop_zero_no_accept[OF this] h show False by blast
  qed
next
  assume h: "animats \<noteq> [] \<and> (\<forall>a \<in> set animats. fitness_value a = 0)" and k: "0 < k"
    and p: "\<not> numpy_floats E \<and> fst (rand_below E g (length animats)) < length animats"
  then show "select E animats k g = Some (Inl ZeroDivisionError)"
    using zero_max_fitness_raises[of animats k E g] by blast
next
  assume h: "animats \<noteq> [] \<and> (\<forall>a \<in> set animats. fitness_value a = 0)" and k: "0 < k"
    and n: "numpy_floats E \<and> (\<forall>g. fst (rand_below E g (length animats)) < length animats)"
  from h have mx: "py_max (map fitness_value animats) = Inr 0" by (simp add: all_zero_max)
  obtain k' where k': "nat k = Suc k'" using k by (cases "nat k") auto
  from accept_loop_zero_numpy[of E animats g] h n have "accept_loop E animats 0 g = None" by blast
  then show "select E animats k g = None" by (simp add: select_def mx k')
qed

theorem select_all_zero_raises_witness:
  "select stub_env [] 1 0 = Some (Inl ValueError) \<and>
   select stub_env [Animat [] 0 0 0 [] 0 0 None] 0 0 = Some (Inr ([], 0)) \<and>
   select stub_env [Animat [] 0 0 0 [] 0 0 None] 1 0 = Some (Inl ZeroDivisionError) \<and>
   select (stub_env\<lparr>numpy_floats := True\<rparr>) [Animat [] 0 0 0 [] 0 0 None] 1 0 = None"
  using select_all_zero_raises[of "[]" stub_env 1 0]
    select_all_zero_raises[of "[Animat [] 0 0 0 [] 0 0 None]" stub_env 0 0]
    select_all_zero_raises[of "[Animat [] 0 0 0 [] 0 0 None]" stub_env 1 0]
    select_all_zero_raises[of "[Animat [] 0 0 0 [] 0 0 None]" "stub_env\<lparr>numpy_floats := True\<rparr>" 1 0]
  by (simp add: stub_env_def)

text \<open>
  C1, as the claim states it, fails: selecting two animats from a population of two
  animats of transformed fitness zero raises ZeroDivisionError.
\<close>

theorem select_all_zero_counterexample:
  "select stub_env [Animat [] 0 0 0 [] 0 0 None, Animat [1] 0 0 0 [] 0 0 None] 2 0 =
     Some (Inl ZeroDivisionError)"
proof -
  have "accept_loop stub_env [Animat [] 0 0 0 [] 0 0 None, Animat [1] 0 0 0 [] 0 0 None] 0 0 =
          Some (Inl ZeroDivisionError)"
    by (subst accept_loop.simps) (simp add: stub_env_def Let_def)
  then show ?thesis by (simp add: select_def numeral_2_eq_2)
qed

text \<open>
  Selection does not read \<open>alt_fitness\<close>: replacing the auxiliary metrics of every animat
  changes neither the draws nor the positions chosen.
\<close>

lemma accept_loop_relabel_1:
  "accept_loop E animats m g = Some y \<Longrightarrow>
   accept_loop E (map (\<lambda>a. set_alt_fitness (alts a) a) animats) m g =
     Some (map_sum id (\<lambda>(c, g'). (set_alt_fitness (alts c) c, g')) y)"
proof (rule accept_loop.raw_induct[where P = "\<lambda>E animats m g y.
   accept_loop E (map (\<lambda>a. set_alt_fitness (alts a) a) animats) m g =
     Some (map_sum id (\<lambda>(c, g'). (set_alt_fitness (alts c) c, g')) y)"], goal_cases)
  case (1 loop E animats m g y)
  obtain i g1 where rb: "rand_below E g (length animats) = (i, g1)" by force
  obtain u g2 where rr: "rand_random E g1 = (u, g2)" by force
  show ?case
    using 1(2,3) rb rr
    by (subst accept_loop.simps) (auto simp: Let_def split: if_splits)
qed

lemma accept_loop_relabel_2:
  "accept_loop E animats' m g = Some y' \<Longrightarrow>
   \<forall>animats. animats' = map (\<lambda>a. set_alt_fitness (alts a) a) animats \<longrightarrow>
     (\<exists>y. accept_loop E animats m g = Some y \<and>
          y' = map_sum id (\<lambda>(c, g'). (set_alt_fitness (alts c) c, g')) y)"
proof (rule accept_loop.raw_induct[where P = "\<lambda>E animats' m g y'.
   \<forall>animats. animats' = map (\<lambda>a. set_alt_fitness (alts a) a) animats \<longrightarrow>
     (\<exists>y. accept_loop E animats m g = Some y \<and>
          y' = map_sum id (\<lambda>(c, g'). (set_alt_fitness (alts c) c, g')) y)"], goal_cases)
  case (1 loop E animats' m g y')
  show ?case
  proof (intro allI impI)
    fix animats assume eq: "animats' = map (\<lambda>a. set_alt_fitness (alts a) a) animats"
    obtain i g1 where rb: "rand_below E g (length animats) = (i, g1)" by force
    obtain u g2 where rr: "rand_random E g1 = (u, g2)" by force
    show "\<exists>y. accept_loop E animats m g = Some y \<and>
          y' = map_sum id (\<lambda>(c, g'). (set_alt_fitness (alts c) c, g')) y"
      using 1(2)[of E animats' m g2] 1(3) rb rr eq
      by (subst accept_loop.simps) (auto simp: Let_def split: if_splits)
  qed
qed

lemma accept_loop_relabel:
  "accept_loop E (map (\<lambda>a. set_alt_fitness (alts a) a) animats) m g =
     map_option (map_sum id (\<lambda>(c, g'). (set_alt_fitness (alts c) c, g'))) (accept_loop E animats m g)"
proof (cases "accept_loop E animats m g")
  case None
  show ?thesis
  proof (cases "accept_loop E (map (\<lambda>a. set_alt_fitness (alts a) a) animats) m g")
    case (Some y')
    from accept_loop_relabel_2[OF this, where alts = alts] None show ?thesis by auto
  qed (simp add: None)
next
  case (Some y)
  from accept_loop_relabel_1[OF this] Some show ?thesis by simp
qed

lemma select_slots_relabel:
  "select_slots E (map (\<lambda>a. set_alt_fitness (alts a) a) animats) m k g
       (map (\<lambda>a. set_alt_fitness (alts a) a) chosen0) =
     map_option (map_sum id (\<lambda>(chosen, g'). (map (\<lambda>a. set_alt_fitness (alts a) a) chosen, g')))
       (select_slots E animats m k g chosen0)"
proof (induction k arbitrary: g chosen0)
  case 0
  show ?case by simp
next
  case (Suc k)
  show ?case
  proof (cases "accept_loop E animats m g")
    case None
    then show ?thesis by (simp add: accept_loop_relabel)
  next
    case (Some y)
    show ?thesis
    proof (cases y)
      case (Inl e)
      with Some show ?thesis by (simp add: accept_loop_relabel)
    next
      case (Inr cg)
      obtain c g1 where cg: "cg = (c, g1)" by force
      from Suc.IH[of g1 "chosen0 @ [c]"] Some Inr cg show ?thesis
        by (simp add: accept_loop_relabel)
    qed
  qed
qed

lemma select_relabel:
  "select E (map (\<lambda>a. set_alt_fitness (alts a) a) animats) k g =
     map_option (map_sum id (\<lambda>(chosen, g'). (map (\<lambda>a. set_alt_fitness (alts a) a) chosen, g')))
       (select E animats k g)"
proof -
  have eq: "map fitness_value (map (\<lambda>a. set_alt_fitness (alts a) a) animats) = map fitness_value animats"
    by simp
  show ?thesis
  proof (cases "py_max (map fitness_value animats)")
    case (Inl e)
    then show ?thesis unfolding select_def eq by simp
  next
    case (Inr m)
    then show ?thesis
      unfolding select_def eq
      using select_slots_relabel[of E alts animats m "nat k" g "[]"] by simp
  qed
qed

lemma multi_fit_evaluate_stores:
  assumes "\<forall>a \<in> set pop. \<exists>counters fitness0 rest. evaluate E a = (counters, Tuple (fitness0 # rest))"
  shows "\<exists>pop'. multi_fit_evaluate E pop = Inr pop' \<and> length pop' = length pop \<and>
      (\<forall>i < length pop. \<forall>counters fitness0 rest.
          evaluate E (pop ! i) = (counters, Tuple (fitness0 # rest)) \<longrightarrow>
            fitness_raw (pop' ! i) = fitness0 \<and>
            fitness_value (pop' ! i) = fitness_base E powr fitness0 \<and>
            alt_fitness (pop' ! i) = rest)"
  using assms
proof (induction pop)
  case Nil
  show ?case by simp
next
  case (Cons a pop)
  from Cons.prems obtain counters fitness0 rest where
    ev: "evaluate E a = (counters, Tuple (fitness0 # rest))" by auto
  from Cons.IH Cons.prems obtain pop' where
    p: "multi_fit_evaluate E pop = Inr pop'" "length pop' = length pop" and
    q: "\<forall>i < length pop. \<forall>counters fitness0 rest.
          evaluate E (pop ! i) = (counters, Tuple (fitness0 # rest)) \<longrightarrow>
            fitness_raw (pop' ! i) = fitness0 \<and>
            fitness_value (pop' ! i) = fitness_base E powr fitness0 \<and>
            alt_fitness (pop' ! i) = rest" by auto
  show ?case
    using ev p q by (auto simp: nth_Cons split: nat.split)
qed

text \<open>
  C3. When the fitness function returns a non-empty tuple for every animat of the
  population, \<open>multi_fit_evaluate\<close> returns, and for each animat element 0 of its tuple is
  the raw fitness, \<open>FITNESS_BASE\<close> to that power is the transformed fitness, and the
  remaining elements are stored unchanged in \<open>alt_fitness\<close>. Selection never reads
  \<open>alt_fitness\<close>: for every choice \<open>alts\<close> of auxiliary metrics, selecting from the population
  with these metrics written into it gives the same result (the same positions, the same
  stream position, the same exception or non-termination) as selecting from the
  population as it is.
\<close>

theorem multi_objective_fitness:
  assumes "\<forall>a \<in> set pop. \<exists>counters fitness0 rest. evaluate E a = (counters, Tuple (fitness0 # rest))"
  shows "(\<exists>pop'. multi_fit_evaluate E pop = Inr pop' \<and> length pop' = length pop \<and>
      (\<forall>i < length pop. \<forall>counters fitness0 rest.
          evaluate E (pop ! i) = (counters, Tuple (fitness0 # rest)) \<longrightarrow>
            fitness_raw (pop' ! i) = fitness0 \<and>
            fitness_value (pop' ! i) = fitness_base E powr fitness0 \<and>
            alt_fitness (pop' ! i) = rest)) \<and>
    (\<forall>animats alts k g.
        select E (map (\<lambda>a. set_alt_fitness (alts a) a) animats) k g =
        map_option (map_sum id (\<lambda>(chosen, g'). (map (\<lambda>a. set_alt_fitness (alts a) a) chosen, g')))
          (select E animats k g))"
  using multi_fit_evaluate_stores[OF assms] select_relabel[of E] by blast

theorem multi_objective_fitness_witness:
  "\<exists>pop'. multi_fit_evaluate (stub_env\<lparr>evaluate := (\<lambda>a. ((1, 0), Tuple [3, 7, 9]))\<rparr>)
            [new_animat []] = Inr pop' \<and>
      fitness_raw (pop' ! 0) = 3 \<and> fitness_value (pop' ! 0) = 2 powr 3 \<and>
      alt_fitness (pop' ! 0) = [7, 9]"
proof -
  let ?E = "stub_env\<lparr>evaluate := (\<lambda>a. ((1, 0), Tuple [3, 7, 9]))\<rparr>"
  have ev: "evaluate ?E a = ((1, 0), Tuple (3 # [7, 9]))" for a by simp
  have base: "fitness_base ?E = 2" by (simp add: stub_env_def)
  have h: "\<forall>a \<in> set [new_animat []]. \<exists>counters fitness0 rest.
             evaluate ?E a = (counters, Tuple (fitness0 # rest))"
    using ev by blast
  from multi_objective_fitness[OF h] obtain pop' where
    p: "multi_fit_evaluate ?E [new_animat []] = Inr pop'"
    and q: "\<forall>i < length [new_animat []]. \<forall>counters fitness0 rest.
          evaluate ?E ([new_animat []] ! i) = (counters, Tuple (fitness0 # rest)) \<longrightarrow>
            fitness_raw (pop' ! i) = fitness0 \<and>
            fitness_value (pop' ! i) = fitness_base ?E powr fitness0 \<and>
            alt_fitness (pop' ! i) = rest"
    by blast
  from q[rule_format, of 0 "(1, 0)" 3 "[7, 9]"] ev base
  have "fitness_raw (pop' ! 0) = 3 \<and> fitness_value (pop' ! 0) = 2 powr 3 \<and>
      alt_fitness (pop' ! 0) = [7, 9]" by simp
  with p show ?thesis by blast
qed

subsection \<open>The generation loop\<close>

lemma bindr_Inr_iff:
  "bindr m f = Some (Inr y) \<longleftrightarrow> (\<exists>x. m = Some (Inr x) \<and> f x = Some (Inr y))"
  by (auto simp: bindr_def split: option.splits sum.splits)

lemma bindr_simps [simp]:
  "bindr None f = None" "bindr (Some (Inl e)) f = Some (Inl e)" "bindr (Some (Inr x)) f = f x"
  by (simp_all add: bindr_def)

lemma gen_loop_append:
  "gen_loop E ex S (xs @ ys) ps = bindr (gen_loop E ex S xs ps) (gen_loop E ex S ys)"
proof (induction xs arbitrary: ps)
  case Nil
  show ?case by simp
next
  case (Cons x xs)
  show ?case
  proof (cases "loop_body E ex S x ps")
    case None
    then show ?thesis by simp
  next
    case (Some r)
    then show ?thesis by (cases r) (simp_all add: Cons.IH)
  qed
qed

text \<open>What each step of an iteration does to the variables of \<open>main\<close>.\<close>

lemma record_gen_fields:
  assumes "record_gen E ex pop gen st = Inr st'"
  shows "log_interval ex \<noteq> 0"
    and "map fst (logbook st') =
           map fst (logbook st) @ (if gen mod log_interval ex = 0 then [gen] else [])"
    and "rng st' = rng st" and "ticks st' = ticks st" and "snapshot st' = snapshot st"
    and "saved st' = saved st" and "snap_duration_start st' = snap_duration_start st"
  using assms by (auto simp: record_gen_def Let_def split: if_splits sum.splits)

lemma save_data_fields:
  assumes "save_data ex S dir gen pop st = Inr st'"
  shows "map save_dir (saved st') = map save_dir (saved st) @ [dir]"
    and "logbook st' = logbook st" and "ticks st' = ticks st" and "snapshot st' = snapshot st"
    and "snap_duration_start st' = snap_duration_start st" and "rng st' = rng st"
  using assms by (auto simp: save_data_def Let_def split: if_splits sum.splits list.splits)

lemma process_gen_state:
  assumes "process_gen E ex pop gen st = Some (Inr (pop', st'))"
  shows "log_interval ex \<noteq> 0"
    and "map fst (logbook st') =
           map fst (logbook st) @ (if gen mod log_interval ex = 0 then [gen] else [])"
    and "ticks st' = ticks st" and "snapshot st' = snapshot st"
    and "saved st' = saved st" and "snap_duration_start st' = snap_duration_start st"
proof -
  from assms obtain sel g1 where
    "select E pop (int (length pop)) (rng st) = Some (Inr (sel, g1))"
    and rest: "(let offspring = map (set_gen gen) sel;
           (offspring, g2) = vary E offspring sel g1
       in case evaluate_pop E ex offspring of
            Inl e \<Rightarrow> Some (Inl e)
          | Inr offspring \<Rightarrow>
              (case record_gen E ex offspring gen (st\<lparr>rng := g2\<rparr>) of
                 Inl e \<Rightarrow> Some (Inl e)
               | Inr st' \<Rightarrow> Some (Inr (offspring, st')))) = Some (Inr (pop', st'))"
    unfolding process_gen_def bindr_Inr_iff by auto
  obtain off g2 where v: "vary E (map (set_gen gen) sel) sel g1 = (off, g2)" by force
  from rest v obtain off' where "evaluate_pop E ex off = Inr off'"
    and rg: "record_gen E ex off' gen (st\<lparr>rng := g2\<rparr>) = Inr st'"
    by (auto simp: Let_def split: sum.splits)
  from record_gen_fields[OF rg]
  show "log_interval ex \<noteq> 0"
    and "map fst (logbook st') =
           map fst (logbook st) @ (if gen mod log_interval ex = 0 then [gen] else [])"
    and "ticks st' = ticks st" and "snapshot st' = snapshot st"
    and "saved st' = saved st" and "snap_duration_start st' = snap_duration_start st"
    by simp_all
qed

lemma reporting_fields:
  assumes "reporting ex gen st = Inr st'"
  shows "status_interval ex \<noteq> 0" and "logbook st' = logbook st" and "saved st' = saved st"
    and "snapshot st' = snapshot st" and "snap_duration_start st' = snap_duration_start st"
  using assms by (auto simp: reporting_def split: if_splits)

lemma snapshotting_logbook:
  assumes "snapshotting E ex S gen pop st = Inr st'"
  shows "logbook st' = logbook st"
  using assms
  by (auto simp: snapshotting_def Let_def split: sum.splits bool.splits dest: save_data_fields(2))

lemma loop_body_Inr:
  assumes "loop_body E ex S gen (pop, st) = Some (Inr (pop', st'))"
  obtains st1 st2 where "process_gen E ex pop gen st = Some (Inr (pop', st1))"
    and "reporting ex gen st1 = Inr st2" and "snapshotting E ex S gen pop' st2 = Inr st'"
proof -
  from assms obtain pop1 st1 where
    pg: "process_gen E ex pop gen st = Some (Inr (pop1, st1))"
    and rest: "(case reporting ex gen st1 of
         Inl e \<Rightarrow> Some (Inl e)
       | Inr st2 \<Rightarrow>
           (case snapshotting E ex S gen pop1 st2 of
              Inl e \<Rightarrow> Some (Inl e)
            | Inr st3 \<Rightarrow> Some (Inr (pop1, st3)))) = Some (Inr (pop', st'))"
    unfolding loop_body_def bindr_Inr_iff by auto
  from rest obtain st2 where rp: "reporting ex gen st1 = Inr st2"
    and r2: "(case snapshotting E ex S gen pop1 st2 of
              Inl e \<Rightarrow> Some (Inl e)
            | Inr st3 \<Rightarrow> Some (Inr (pop1, st3))) = Some (Inr (pop', st'))"
    by (cases "reporting ex gen st1") auto
  from r2 have "snapshotting E ex S gen pop1 st2 = Inr st'" and "pop1 = pop'"
    by (cases "snapshotting E ex S gen pop1 st2"; simp)+
  with pg rp that show thesis by blast
qed

lemma loop_body_logbook:
  assumes "loop_body E ex S gen (pop, st) = Some (Inr (pop', st'))"
  shows "log_interval ex \<noteq> 0 \<and>
     map fst (logbook st') =
       map fst (logbook st) @ (if gen mod log_interval ex = 0 then [gen] else [])"
proof -
  from assms obtain st1 st2 where
    pg: "process_gen E ex pop gen st = Some (Inr (pop', st1))"
    and rp: "reporting ex gen st1 = Inr st2" and sn: "snapshotting E ex S gen pop' st2 = Inr st'"
    by (rule loop_body_Inr)
  from process_gen_state(1,2)[OF pg] reporting_fields(2)[OF rp] snapshotting_logbook[OF sn]
  show ?thesis by simp
qed

lemma gen_loop_logbook:
  "gen_loop E ex S gens (pop, st) = Some (Inr (pop', st')) \<Longrightarrow>
   map fst (logbook st') = map fst (logbook st) @ filter (\<lambda>g. g mod log_interval ex = 0) gens"
proof (induction gens arbitrary: pop st)
  case Nil
  then show ?case by simp
next
  case (Cons gen gens)
  from Cons.prems obtain pop1 st1 where
    lb: "loop_body E ex S gen (pop, st) = Some (Inr (pop1, st1))"
    and gl: "gen_loop E ex S gens (pop1, st1) = Some (Inr (pop', st'))"
    by (auto simp: bindr_Inr_iff)
  from loop_body_logbook[OF lb] Cons.IH[OF gl] show ?case by simp
qed

lemma init_run_state:
  assumes "init_run E ex g0 = Inr (pop, st)"
  shows "log_interval ex \<noteq> 0" and "map fst (logbook st) = [0]" and "saved st = []"
    and "snapshot st = 1" and "snap_duration_start st = clock E 4"
proof -
  from assms obtain pop0 st1 where
    rg: "record_gen E ex pop0 0 \<lparr>rng = g0, ticks = 2, logbook = [], hall_of_fame = [], snapshot = 1,
                 snap_duration_start = 0, saved = []\<rparr> = Inr st1"
    and st: "st = st1\<lparr>ticks := 5, snap_duration_start := clock E 4\<rparr>"
    by (auto simp: init_run_def Let_def split: sum.splits)
  from record_gen_fields[OF rg] st
  show "log_interval ex \<noteq> 0" and "map fst (logbook st) = [0]" and "saved st = []"
    and "snapshot st = 1" and "snap_duration_start st = clock E 4"
    by simp_all
qed

lemma run_gens_logbook:
  assumes "run_gens E ex S g0 n = Some (Inr (pop, st))" and "0 \<le> n"
  shows "map fst (logbook st) = filter (\<lambda>g. g mod log_interval ex = 0) [0..n]"
proof -
  from assms(1) obtain pop0 st0 where
    ir: "init_run E ex g0 = Inr (pop0, st0)"
    and gl: "gen_loop E ex S [1..n] (pop0, st0) = Some (Inr (pop, st))"
    unfolding run_gens_def bindr_Inr_iff by auto
  have "[0..n] = 0 # [1..n]" using assms(2) by (simp add: upto_rec1)
  with gen_loop_logbook[OF gl] init_run_state(1,2)[OF ir] show ?thesis by simp
qed

lemma main_run_gens:
  assumes "main E ex S g0 = Some (Inr (pop, st))"
  shows "1 \<le> ngen ex \<and> (\<exists>st1. run_gens E ex S g0 (ngen ex) = Some (Inr (pop, st1)) \<and>
            save_data ex S None (ngen ex) pop (st1\<lparr>ticks := Suc (ticks st1)\<rparr>) = Inr st)"
  using assms unfolding main_def bindr_Inr_iff
  by (auto simp: Let_def split: if_splits sum.splits)

lemma main_logbook:
  assumes "main E ex S g0 = Some (Inr (pop, st))"
  shows "1 \<le> ngen ex"
    and "map fst (logbook st) = filter (\<lambda>g. g mod log_interval ex = 0) [0..ngen ex]"
proof -
  from main_run_gens[OF assms] obtain st1 where n: "1 \<le> ngen ex"
    and rg: "run_gens E ex S g0 (ngen ex) = Some (Inr (pop, st1))"
    and sd: "save_data ex S None (ngen ex) pop (st1\<lparr>ticks := Suc (ticks st1)\<rparr>) = Inr st"
    by blast
  from save_data_fields(2)[OF sd] have "logbook st = logbook st1" by simp
  with run_gens_logbook[OF rg] n
  show "1 \<le> ngen ex"
    and "map fst (logbook st) = filter (\<lambda>g. g mod log_interval ex = 0) [0..ngen ex]"
    by simp_all
qed

lemma div_mod_succ:
  fixes n L :: int
  assumes "0 < L"
  shows "(n + 1) div L = n div L + (if (n + 1) mod L = 0 then 1 else 0)"
proof (cases "n mod L + 1 = L")
  case True
  have "n + 1 = L * (n div L + 1) + 0"
    using True by (metis add.right_neutral distrib_left mult.right_neutral add.assoc mult_div_mod_eq)
  then have "(n + 1) div L = n div L + 1" "(n + 1) mod L = 0"
    using assms int_div_pos_eq[of "n + 1" L "n div L + 1" 0] int_mod_pos_eq[of "n + 1" L "n div L + 1" 0]
    by auto
  then show ?thesis by simp
next
  case False
  have r: "0 \<le> n mod L" "n mod L < L" using assms by simp_all
  with False have lt: "n mod L + 1 < L" by linarith
  have "n + 1 = L * (n div L) + (n mod L + 1)" by simp
  then have "(n + 1) div L = n div L" "(n + 1) mod L = n mod L + 1"
    using lt r int_div_pos_eq[of "n + 1" L "n div L" "n mod L + 1"]
      int_mod_pos_eq[of "n + 1" L "n div L" "n mod L + 1"]
    by auto
  with r show ?thesis by simp
qed

lemma count_logged:
  fixes n L :: int
  assumes "0 < L" "0 \<le> n"
  shows "int (length (filter (\<lambda>g. g mod L = 0) [0..n])) = n div L + 1"
  using assms(2)
proof (induction n rule: int_ge_induct)
  case base
  show ?case by simp
next
  case (step i)
  have "[0..i + 1] = [0..i] @ [i + 1]" using step.hyps by (simp add: upto_rec2)
  then show ?case using step.IH div_mod_succ[OF assms(1), of i] by simp
qed

text \<open>The snapshots of a run whose wall-clock trigger never fires.\<close>

lemma snapshot_due_silent:
  assumes "timer_silent E ex"
  shows "snapshot_due (SNAPSHOT_TIME_INTERVAL ex) gi (clock E i - clock E j) gen =
     (case gi of None \<Rightarrow> Inr (gen = 0)
      | Some n \<Rightarrow> if n = 0 then Inl ZeroDivisionError else Inr (gen mod n = 0))"
  using assms
  by (auto simp: snapshot_due_def timer_silent_def not_le[symmetric] split: option.splits)

lemma snapshotting_silent:
  assumes sn: "snapshotting E ex S gen pop st = Inr st'"
    and silent: "timer_silent E ex" and start: "snap_duration_start st \<in> range (clock E)"
    and gen: "gen \<noteq> 0"
  shows "SNAPSHOT_GENERATION_INTERVAL ex \<noteq> Some 0"
    and "map save_dir (saved st') = map save_dir (saved st) @
           (if \<exists>n. SNAPSHOT_GENERATION_INTERVAL ex = Some n \<and> gen mod n = 0
            then [Some (snapshot st, gen)] else [])"
    and "snapshot st' = snapshot st +
           (if \<exists>n. SNAPSHOT_GENERATION_INTERVAL ex = Some n \<and> gen mod n = 0 then 1 else 0)"
    and "snap_duration_start st' \<in> range (clock E)"
proof -
  from start obtain j where j: "snap_duration_start st = clock E j" by auto
  have due: "snapshot_due (SNAPSHOT_TIME_INTERVAL ex) (SNAPSHOT_GENERATION_INTERVAL ex)
                   (clock E (ticks st) - snap_duration_start (st\<lparr>ticks := Suc (ticks st)\<rparr>)) gen =
     (case SNAPSHOT_GENERATION_INTERVAL ex of None \<Rightarrow> Inr (gen = 0)
      | Some n \<Rightarrow> if n = 0 then Inl ZeroDivisionError else Inr (gen mod n = 0))"
    using snapshot_due_silent[OF silent, of _ "ticks st" j gen] j by simp
  note sn' = sn[unfolded snapshotting_def Let_def due]
  show "SNAPSHOT_GENERATION_INTERVAL ex \<noteq> Some 0"
    using sn' by (auto split: option.splits)
  show "map save_dir (saved st') = map save_dir (saved st) @
           (if \<exists>n. SNAPSHOT_GENERATION_INTERVAL ex = Some n \<and> gen mod n = 0
            then [Some (snapshot st, gen)] else [])"
    using sn' gen
    by (auto split: option.splits if_splits sum.splits bool.splits dest!: save_data_fields(1))
  show "snapshot st' = snapshot st +
           (if \<exists>n. SNAPSHOT_GENERATION_INTERVAL ex = Some n \<and> gen mod n = 0 then 1 else 0)"
    using sn' gen
    by (auto split: option.splits if_splits sum.splits bool.splits dest!: save_data_fields(4))
  show "snap_duration_start st' \<in> range (clock E)"
    using sn' gen j
    by (auto split: option.splits if_splits sum.splits bool.splits)
qed

lemma loop_body_snapshot:
  assumes lb: "loop_body E ex S gen (pop, st) = Some (Inr (pop', st'))"
    and silent: "timer_silent E ex" and start: "snap_duration_start st \<in> range (clock E)"
    and gen: "gen \<noteq> 0"
  shows "SNAPSHOT_GENERATION_INTERVAL ex \<noteq> Some 0"
    and "map save_dir (saved st') = map save_dir (saved st) @
           (if \<exists>n. SNAPSHOT_GENERATION_INTERVAL ex = Some n \<and> gen mod n = 0
            then [Some (snapshot st, gen)] else [])"
    and "snapshot st' = snapshot st +
           (if \<exists>n. SNAPSHOT_GENERATION_INTERVAL ex = Some n \<and> gen mod n = 0 then 1 else 0)"
    and "snap_duration_start st' \<in> range (clock E)"
proof -
  from lb obtain st1 st2 where
    pg: "process_gen E ex pop gen st = Some (Inr (pop', st1))"
    and rp: "reporting ex gen st1 = Inr st2" and sn: "snapshotting E ex S gen pop' st2 = Inr st'"
    by (rule loop_body_Inr)
  have eq: "saved st2 = saved st" "snapshot st2 = snapshot st"
    "snap_duration_start st2 = snap_duration_start st"
    using process_gen_state(4,5,6)[OF pg] reporting_fields(3,4,5)[OF rp] by simp_all
  with start have start2: "snap_duration_start st2 \<in> range (clock E)" by simp
  from snapshotting_silent[OF sn silent start2 gen] eq
  show "SNAPSHOT_GENERATION_INTERVAL ex \<noteq> Some 0"
    and "map save_dir (saved st') = map save_dir (saved st) @
           (if \<exists>n. SNAPSHOT_GENERATION_INTERVAL ex = Some n \<and> gen mod n = 0
            then [Some (snapshot st, gen)] else [])"
    and "snapshot st' = snapshot st +
           (if \<exists>n. SNAPSHOT_GENERATION_INTERVAL ex = Some n \<and> gen mod n = 0 then 1 else 0)"
    and "snap_duration_start st' \<in> range (clock E)"
    by simp_all
qed

lemma gen_loop_snapshots:
  assumes "gen_loop E ex S gens (pop, st) = Some (Inr (pop', st'))"
    and "timer_silent E ex" and "snap_duration_start st \<in> range (clock E)"
    and "\<forall>g \<in> set gens. g \<noteq> 0"
  shows "map save_dir (saved st') = map save_dir (saved st) @
           map Some (enumerate (snapshot st)
             (filter (\<lambda>g. \<exists>n. SNAPSHOT_GENERATION_INTERVAL ex = Some n \<and> g mod n = 0) gens))"
  using assms
proof (induction gens arbitrary: pop st)
  case Nil
  then show ?case by simp
next
  case (Cons gen gens)
  let ?due = "\<lambda>g. \<exists>n. SNAPSHOT_GENERATION_INTERVAL ex = Some n \<and> g mod n = 0"
  from Cons.prems(1) obtain pop1 st1 where
    lb: "loop_body E ex S gen (pop, st) = Some (Inr (pop1, st1))"
    and gl: "gen_loop E ex S gens (pop1, st1) = Some (Inr (pop', st'))"
    by (auto simp: bindr_Inr_iff)
  from Cons.prems(4) have gen: "gen \<noteq> 0" and gens: "\<forall>g \<in> set gens. g \<noteq> 0" by simp_all
  note step = loop_body_snapshot[OF lb Cons.prems(2,3) gen]
  note ih = Cons.IH[OF gl Cons.prems(2) step(4) gens]
  show ?case
  proof (cases "?due gen")
    case True
    with step(2,3) have "map save_dir (saved st1) = map save_dir (saved st) @ [Some (snapshot st, gen)]"
      and "snapshot st1 = Suc (snapshot st)" by simp_all
    with ih True show ?thesis by simp
  next
    case False
    with step(2,3) have s1: "map save_dir (saved st1) = map save_dir (saved st)"
      and s2: "snapshot st1 = snapshot st" by simp_all
    moreover have "filter ?due (gen # gens) = filter ?due gens" using False by simp
    ultimately show ?thesis using ih by simp
  qed
qed

lemma main_written_dirs:
  assumes "main E ex S g0 = Some (Inr (pop, st))" and "timer_silent E ex"
  shows "map save_dir (saved st) =
           map Some (enumerate 1
             (filter (\<lambda>g. \<exists>n. SNAPSHOT_GENERATION_INTERVAL ex = Some n \<and> g mod n = 0) [1..ngen ex]))
           @ [None]"
proof -
  from main_run_gens[OF assms(1)] obtain st1 where n: "1 \<le> ngen ex"
    and rg: "run_gens E ex S g0 (ngen ex) = Some (Inr (pop, st1))"
    and sd: "save_data ex S None (ngen ex) pop (st1\<lparr>ticks := Suc (ticks st1)\<rparr>) = Inr st"
    by blast
  from rg obtain pop0 st0 where
    ir: "init_run E ex g0 = Inr (pop0, st0)"
    and gl: "gen_loop E ex S [1..ngen ex] (pop0, st0) = Some (Inr (pop, st1))"
    unfolding run_gens_def bindr_Inr_iff by auto
  note i = init_run_state(3,4,5)[OF ir]
  have "snap_duration_start st0 \<in> range (clock E)" using i(3) by simp
  moreover have "\<forall>g \<in> set [1..ngen ex]. g \<noteq> 0" by simp
  ultimately have "map save_dir (saved st1) = map save_dir (saved st0) @
           map Some (enumerate (snapshot st0)
             (filter (\<lambda>g. \<exists>n. SNAPSHOT_GENERATION_INTERVAL ex = Some n \<and> g mod n = 0) [1..ngen ex]))"
    by (rule gen_loop_snapshots[OF gl assms(2)])
  with save_data_fields(1)[OF sd] i show ?thesis by simp
qed

text \<open>The population after an iteration: who its members are and whom they descend from.\<close>

lemma lineage_unfold:
  "lineage a = a # (case parent a of None \<Rightarrow> [] | Some p \<Rightarrow> lineage p)"
proof (cases a)
  case (Animat g n r v alt c i p)
  then show ?thesis by (cases p) simp_all
qed

lemma accept_loop_member:
  "accept_loop E animats m g = Some r \<Longrightarrow> \<forall>c g'. r = Inr (c, g') \<longrightarrow> c \<in> set animats"
proof (rule accept_loop.raw_induct[where P = "\<lambda>E animats m g r.
    \<forall>c g'. r = Inr (c, g') \<longrightarrow> c \<in> set animats"], goal_cases)
  case (1 loop E animats m g r)
  obtain i g1 where rb: "rand_below E g (length animats) = (i, g1)" by force
  obtain u g2 where rr: "rand_random E g1 = (u, g2)" by force
  from 1(2)[of E animats m g2 r] 1(3) rb rr show ?case
    by (auto simp: Let_def split: if_splits)
qed

lemma select_slots_member:
  "select_slots E animats m k g chosen0 = Some (Inr (chosen, g')) \<Longrightarrow>
   \<exists>cs. chosen = chosen0 @ cs \<and> length cs = k \<and> set cs \<subseteq> set animats"
proof (induction k arbitrary: g chosen0)
  case 0
  then show ?case by simp
next
  case (Suc k)
  from Suc.prems obtain c g1 where al: "accept_loop E animats m g = Some (Inr (c, g1))"
    and rest: "select_slots E animats m k g1 (chosen0 @ [c]) = Some (Inr (chosen, g'))"
    by (auto split: option.splits sum.splits)
  from accept_loop_member[OF al] have c: "c \<in> set animats" by simp
  from Suc.IH[OF rest] obtain cs where "chosen = (chosen0 @ [c]) @ cs" "length cs = k"
    "set cs \<subseteq> set animats" by blast
  with c show ?case by (intro exI[of _ "c # cs"]) simp
qed

lemma select_member:
  assumes "select E animats k g = Some (Inr (chosen, g'))"
  shows "length chosen = nat k" and "set chosen \<subseteq> set animats"
proof -
  from assms obtain m where "select_slots E animats m (nat k) g [] = Some (Inr (chosen, g'))"
    by (auto simp: select_def split: sum.splits)
  from select_slots_member[OF this] show "length chosen = nat k" and "set chosen \<subseteq> set animats"
    by auto
qed

lemma vary_props:
  assumes "vary E offspring pop g = (offspring', g')" and "length offspring = length pop"
  shows "length offspring' = length pop \<and>
     (\<forall>i < length pop. gen_of (offspring' ! i) = gen_of (offspring ! i) \<and>
        fitness_value (offspring' ! i) = fitness_value (offspring ! i) \<and>
        parent (offspring' ! i) = Some (pop ! i))"
  using assms
proof (induction E offspring pop g arbitrary: offspring' g' rule: vary.induct)
  case (1 E child offspring p pop g)
  obtain genome' g1 where m: "mutate_genome E (genome child) g = (genome', g1)" by force
  obtain rest g2 where v: "vary E offspring pop g1 = (rest, g2)" by force
  from "1.prems"(1) m v have off: "offspring' = set_parent (Some p) (set_genome genome' child) # rest"
    by simp
  from "1.IH"[OF m[symmetric] refl v] "1.prems"(2)
  have ih: "length rest = length pop \<and>
     (\<forall>i < length pop. gen_of (rest ! i) = gen_of (offspring ! i) \<and>
        fitness_value (rest ! i) = fitness_value (offspring ! i) \<and>
        parent (rest ! i) = Some (pop ! i))" by simp
  show ?case unfolding off using ih by (auto simp: nth_Cons split: nat.split)
qed auto

lemma multi_fit_evaluate_frame:
  "multi_fit_evaluate E pop = Inr pop' \<Longrightarrow>
   length pop' = length pop \<and>
   (\<forall>i < length pop. gen_of (pop' ! i) = gen_of (pop ! i) \<and> parent (pop' ! i) = parent (pop ! i) \<and>
      fitness_value (pop' ! i) = fitness_base E powr fitness_raw (pop' ! i))"
proof (induction pop arbitrary: pop')
  case Nil
  then show ?case by simp
next
  case (Cons a pop)
  from Cons.prems obtain counters fitness0 rest pop1 where
    "evaluate E a = (counters, Tuple (fitness0 # rest))"
    and p1: "multi_fit_evaluate E pop = Inr pop1"
    and p': "pop' = set_alt_fitness rest
                     (fitness_set (fitness_base E) fitness0 (set_counters counters a)) # pop1"
    by (auto split: prod.splits fit_result.splits list.splits sum.splits)
  from Cons.IH[OF p1] show ?case unfolding p' by (auto simp: nth_Cons split: nat.split)
qed

lemma single_fit_evaluate_frame:
  "single_fit_evaluate E pop = Inr pop' \<Longrightarrow>
   length pop' = length pop \<and>
   (\<forall>i < length pop. gen_of (pop' ! i) = gen_of (pop ! i) \<and> parent (pop' ! i) = parent (pop ! i) \<and>
      fitness_value (pop' ! i) = fitness_base E powr fitness_raw (pop' ! i))"
proof (induction pop arbitrary: pop')
  case Nil
  then show ?case by simp
next
  case (Cons a pop)
  from Cons.prems obtain counters fitness pop1 where
    "evaluate E a = (counters, Scalar fitness)"
    and p1: "single_fit_evaluate E pop = Inr pop1"
    and p': "pop' = fitness_set (fitness_base E) fitness (set_counters counters a) # pop1"
    by (auto split: prod.splits fit_result.splits list.splits sum.splits)
  from Cons.IH[OF p1] show ?case unfolding p' by (auto simp: nth_Cons split: nat.split)
qed

lemma evaluate_pop_frame:
  assumes "evaluate_pop E ex pop = Inr pop'"
  shows "length pop' = length pop"
    and "\<And>i. i < length pop \<Longrightarrow> gen_of (pop' ! i) = gen_of (pop ! i)"
    and "\<And>i. i < length pop \<Longrightarrow> parent (pop' ! i) = parent (pop ! i)"
    and "\<And>i. i < length pop \<Longrightarrow> fitness_value (pop' ! i) = fitness_base E powr fitness_raw (pop' ! i)"
  using assms multi_fit_evaluate_frame[of E pop pop'] single_fit_evaluate_frame[of E pop pop']
  by (auto simp: evaluate_pop_def split: if_splits)

lemma process_gen_population:
  assumes "process_gen E ex pop gen st = Some (Inr (pop', st'))"
  shows "length pop' = length pop"
    and "\<forall>a \<in> set pop'. gen_of a = gen \<and> (\<exists>p \<in> set pop. parent a = Some p) \<and>
            fitness_value a = fitness_base E powr fitness_raw a"
proof -
  from assms obtain sel g1 where
    sel: "select E pop (int (length pop)) (rng st) = Some (Inr (sel, g1))"
    and rest: "(let offspring = map (set_gen gen) sel;
           (offspring, g2) = vary E offspring sel g1
       in case evaluate_pop E ex offspring of
            Inl e \<Rightarrow> Some (Inl e)
          | Inr offspring \<Rightarrow>
              (case record_gen E ex offspring gen (st\<lparr>rng := g2\<rparr>) of
                 Inl e \<Rightarrow> Some (Inl e)
               | Inr st' \<Rightarrow> Some (Inr (offspring, st')))) = Some (Inr (pop', st'))"
    unfolding process_gen_def bindr_Inr_iff by auto
  obtain off g2 where v: "vary E (map (set_gen gen) sel) sel g1 = (off, g2)" by force
  from rest v have ev: "evaluate_pop E ex off = Inr pop'"
    by (auto simp: Let_def split: sum.splits)
  note s = select_member[OF sel]
  from vary_props[OF v] have off: "length off = length sel"
    "\<And>i. i < length sel \<Longrightarrow> gen_of (off ! i) = gen \<and> parent (off ! i) = Some (sel ! i)"
    by simp_all
  note e = evaluate_pop_frame[OF ev]
  show "length pop' = length pop" using e(1) off(1) s(1) by simp
  show "\<forall>a \<in> set pop'. gen_of a = gen \<and> (\<exists>p \<in> set pop. parent a = Some p) \<and>
            fitness_value a = fitness_base E powr fitness_raw a"
  proof
    fix a assume "a \<in> set pop'"
    then obtain i where i: "i < length pop'" and a: "a = pop' ! i" by (auto simp: in_set_conv_nth)
    from i e(1) off(1) have i': "i < length off" "i < length sel" by simp_all
    have "sel ! i \<in> set pop" using s(2) i'(2) by auto
    with e(2,3,4)[OF i'(1)] off(2)[OF i'(2)] a
    show "gen_of a = gen \<and> (\<exists>p \<in> set pop. parent a = Some p) \<and>
            fitness_value a = fitness_base E powr fitness_raw a" by auto
  qed
qed

lemma loop_body_population:
  assumes "loop_body E ex S gen (pop, st) = Some (Inr (pop', st'))"
  shows "length pop' = length pop"
    and "\<forall>a \<in> set pop'. gen_of a = gen \<and> (\<exists>p \<in> set pop. parent a = Some p) \<and>
            fitness_value a = fitness_base E powr fitness_raw a"
proof -
  from assms obtain st1 where pg: "process_gen E ex pop gen st = Some (Inr (pop', st1))"
    by (rule loop_body_Inr)
  from process_gen_population[OF pg]
  show "length pop' = length pop"
    and "\<forall>a \<in> set pop'. gen_of a = gen \<and> (\<exists>p \<in> set pop. parent a = Some p) \<and>
            fitness_value a = fitness_base E powr fitness_raw a" by simp_all
qed

lemma init_run_population:
  assumes "init_run E ex g0 = Inr (pop, st)"
  shows "length pop = nat (popsize ex)"
    and "\<forall>a \<in> set pop. gen_of a = 0 \<and> parent a = None \<and>
            fitness_value a = fitness_base E powr fitness_raw a"
proof -
  let ?pop0 = "replicate (nat (popsize ex)) (new_animat (init_genome ex))"
  from assms have ev: "evaluate_pop E ex ?pop0 = Inr pop"
    by (auto simp: init_run_def Let_def split: sum.splits)
  note e = evaluate_pop_frame[OF ev]
  show "length pop = nat (popsize ex)" using e(1) by simp
  show "\<forall>a \<in> set pop. gen_of a = 0 \<and> parent a = None \<and>
            fitness_value a = fitness_base E powr fitness_raw a"
  proof
    fix a assume "a \<in> set pop"
    then obtain i where i: "i < length pop" and a: "a = pop ! i" by (auto simp: in_set_conv_nth)
    with e(1) have i': "i < length ?pop0" by simp
    from e(2,3,4)[OF i'] a i' show "gen_of a = 0 \<and> parent a = None \<and>
            fitness_value a = fitness_base E powr fitness_raw a"
      by (simp add: new_animat_def)
  qed
qed

lemma run_gens_popsize:
  assumes "run_gens E ex S g0 n = Some (Inr (pop, st))" and "0 \<le> n"
  shows "length pop = nat (popsize ex)"
  using assms(2,1)
proof (induction n arbitrary: pop st rule: int_ge_induct)
  case base
  then have ir: "init_run E ex g0 = Inr (pop, st)"
    by (cases "init_run E ex g0") (simp_all add: run_gens_def)
  from init_run_population(1)[OF ir] show ?case .
next
  case (step n)
  have up: "[1..n + 1] = [1..n] @ [n + 1]" using step.hyps by (simp add: upto_rec2)
  from step.prems obtain pop1 st1 where
    rg: "run_gens E ex S g0 n = Some (Inr (pop1, st1))"
    and lb: "loop_body E ex S (n + 1) (pop1, st1) = Some (Inr (pop, st))"
    unfolding run_gens_def up
    by (cases "init_run E ex g0") (auto simp: gen_loop_append bindr_Inr_iff)
  from step.IH[OF rg] loop_body_population(1)[OF lb] show ?case by simp
qed

text \<open>
  A run returns when the environment accepts every first candidate: no step raises, and
  every selection ends. The stub environment is of that kind.
\<close>

lemma roulette_slot_accepting:
  assumes "\<forall>g n. 0 < n \<longrightarrow> fst (rand_below E g n) < n" and "\<forall>g. fst (rand_random E g) \<le> 0"
    and "pop \<noteq> []" and "\<forall>a \<in> set pop. 0 < fitness_value a" and "0 < m"
  shows "\<exists>c g'. roulette_slot E pop m g c g'"
proof -
  obtain i g1 where rb: "rand_below E g (length pop) = (i, g1)" by force
  obtain u g2 where rr: "rand_random E g1 = (u, g2)" by force
  have i: "i < length pop" using assms(1,3) rb by (metis fst_conv length_greater_0_conv)
  have "u \<le> 0" using assms(2) rr by (metis fst_conv)
  moreover have "0 < fitness_value (pop ! i) / m" using assms(4,5) i by simp
  ultimately have "u \<le> fitness_value (pop ! i) / m" by linarith
  with rb i rr have "roulette_slot E pop m g (pop ! i) g2" by (rule roulette_slot.accept)
  then show ?thesis by blast
qed

lemma roulette_accepting:
  assumes "\<forall>g n. 0 < n \<longrightarrow> fst (rand_below E g n) < n" and "\<forall>g. fst (rand_random E g) \<le> 0"
    and "pop \<noteq> []" and "\<forall>a \<in> set pop. 0 < fitness_value a" and "0 < m"
  shows "\<exists>cs g'. roulette E pop m k g cs g'"
proof (induction k arbitrary: g)
  case 0
  show ?case by (blast intro: roulette.no_slot)
next
  case (Suc k)
  from roulette_slot_accepting[OF assms] obtain c g1 where "roulette_slot E pop m g c g1" by blast
  moreover from Suc obtain cs g' where "roulette E pop m k g1 cs g'" by blast
  ultimately show ?case by (blast intro: roulette.next_slot)
qed

lemma select_returns:
  assumes "\<forall>g n. 0 < n \<longrightarrow> fst (rand_below E g n) < n" and "\<forall>g. fst (rand_random E g) \<le> 0"
    and "pop \<noteq> []" and "\<forall>a \<in> set pop. 0 < fitness_value a"
  shows "\<exists>chosen g'. select E pop k g = Some (Inr (chosen, g'))"
proof -
  let ?m = "Max (fitness_value ` set pop)"
  have mx: "py_max (map fitness_value pop) = Inr ?m"
    using assms(3) py_max_nonempty[of "map fitness_value pop"] by simp
  have m: "0 < ?m" using assms(3,4) by (cases pop) (auto simp: Max_gr_iff)
  from roulette_accepting[OF assms m] obtain cs g' where "roulette E pop ?m (nat k) g cs g'"
    by blast
  from select_slots_complete[OF this, of "[]"] m
  have "select E pop k g = Some (Inr (cs, g'))" by (simp add: select_def mx)
  then show ?thesis by blast
qed

lemma multi_fit_evaluate_returns:
  "\<forall>a. \<exists>c x xs. evaluate E a = (c, Tuple (x # xs)) \<Longrightarrow> \<exists>pop'. multi_fit_evaluate E pop = Inr pop'"
proof (induction pop)
  case Nil
  show ?case by simp
next
  case (Cons a pop)
  from Cons.prems obtain c x xs where "evaluate E a = (c, Tuple (x # xs))" by blast
  moreover from Cons obtain pop' where "multi_fit_evaluate E pop = Inr pop'" by blast
  ultimately show ?case by simp
qed

lemma single_fit_evaluate_returns:
  "\<forall>a. \<exists>c x. evaluate E a = (c, Scalar x) \<Longrightarrow> \<exists>pop'. single_fit_evaluate E pop = Inr pop'"
proof (induction pop)
  case Nil
  show ?case by simp
next
  case (Cons a pop)
  from Cons.prems obtain c x where "evaluate E a = (c, Scalar x)" by blast
  moreover from Cons obtain pop' where "single_fit_evaluate E pop = Inr pop'" by blast
  ultimately show ?case by simp
qed

lemma evaluate_pop_returns:
  assumes "accepting_env E ex"
  shows "\<exists>pop'. evaluate_pop E ex pop = Inr pop'"
proof (cases "fitness_function ex = ''mat''")
  case True
  have "\<exists>c x xs. evaluate E a = (c, Tuple (x # xs))" for a
  proof -
    from assms True have "case snd (evaluate E a) of Scalar x \<Rightarrow> False | Tuple xs \<Rightarrow> xs \<noteq> []"
      unfolding accepting_env_def by (auto split: fit_result.splits)
    then show ?thesis
      by (cases "evaluate E a") (auto split: fit_result.splits simp: neq_Nil_conv)
  qed
  then show ?thesis using True multi_fit_evaluate_returns[of E pop] by (simp add: evaluate_pop_def)
next
  case False
  have "\<exists>c x. evaluate E a = (c, Scalar x)" for a
  proof -
    from assms False have "case snd (evaluate E a) of Scalar x \<Rightarrow> True | Tuple xs \<Rightarrow> False"
      unfolding accepting_env_def by (auto split: fit_result.splits)
    then show ?thesis
      by (cases "evaluate E a") (auto split: fit_result.splits)
  qed
  then show ?thesis using False single_fit_evaluate_returns[of E pop] by (simp add: evaluate_pop_def)
qed

lemma record_gen_returns:
  assumes "accepting_env E ex" and "log_interval ex \<noteq> 0" and "pop \<noteq> []"
  shows "\<exists>st'. record_gen E ex pop gen st = Inr st'"
proof -
  from assms(1,3) obtain r where "mstats_compile E (fitness_function ex = ''mat'') pop = Inr r"
    unfolding accepting_env_def by blast
  with assms(2) show ?thesis by (simp add: record_gen_def Let_def)
qed

lemma process_gen_returns:
  assumes ok: "accepting_env E ex" and li: "log_interval ex \<noteq> 0"
    and pop: "pop \<noteq> []" "\<forall>a \<in> set pop. 0 < fitness_value a"
  shows "\<exists>pop' st'. process_gen E ex pop gen st = Some (Inr (pop', st'))"
proof -
  from ok have rng: "\<forall>g n. 0 < n \<longrightarrow> fst (rand_below E g n) < n" "\<forall>g. fst (rand_random E g) \<le> 0"
    unfolding accepting_env_def by blast+
  from select_returns[OF rng pop] obtain sel g1 where
    sel: "select E pop (int (length pop)) (rng st) = Some (Inr (sel, g1))" by blast
  obtain off g2 where v: "vary E (map (set_gen gen) sel) sel g1 = (off, g2)" by force
  from evaluate_pop_returns[OF ok] obtain off' where ev: "evaluate_pop E ex off = Inr off'" by blast
  have "length off' = length pop"
    using evaluate_pop_frame(1)[OF ev] vary_props[OF v] select_member(1)[OF sel] by simp
  with pop(1) have "off' \<noteq> []" by auto
  from record_gen_returns[OF ok li this] obtain st' where
    "record_gen E ex off' gen (st\<lparr>rng := g2\<rparr>) = Inr st'" by blast
  with sel v ev show ?thesis by (simp add: process_gen_def)
qed

lemma reporting_returns:
  "status_interval ex \<noteq> 0 \<Longrightarrow> \<exists>st'. reporting ex gen st = Inr st'"
  by (simp add: reporting_def)

lemma save_data_returns:
  "pop \<noteq> [] \<Longrightarrow> \<exists>st'. save_data ex S dir gen pop st = Inr st'"
  by (cases pop; cases S) (simp_all add: save_data_def Let_def)

lemma snapshotting_returns:
  assumes "SNAPSHOT_GENERATION_INTERVAL ex \<noteq> Some 0" and "pop \<noteq> []"
  shows "\<exists>st'. snapshotting E ex S gen pop st = Inr st'"
proof -
  have sd: "\<exists>st'. save_data ex S dir gen pop st1 = Inr st'" for dir and st1 :: "'a run_state"
    using assms(2) by (rule save_data_returns)
  have "\<exists>b. snapshot_due (SNAPSHOT_TIME_INTERVAL ex) (SNAPSHOT_GENERATION_INTERVAL ex) e gen = Inr b" for e
    using assms(1) by (auto simp: snapshot_due_def split: option.splits)
  then obtain b where b: "snapshot_due (SNAPSHOT_TIME_INTERVAL ex) (SNAPSHOT_GENERATION_INTERVAL ex)
        (clock E (ticks st) - snap_duration_start (st\<lparr>ticks := Suc (ticks st)\<rparr>)) gen = Inr b"
    by blast
  show ?thesis
  proof (cases b)
    case True
    from sd obtain st2 where
      "save_data ex S (Some (snapshot (st\<lparr>ticks := Suc (ticks st)\<rparr>), gen)) gen pop
         (st\<lparr>ticks := Suc (ticks st)\<rparr>) = Inr st2" by blast
    with b True show ?thesis by (simp add: snapshotting_def Let_def)
  next
    case False
    with b show ?thesis by (simp add: snapshotting_def Let_def)
  qed
qed

lemma loop_body_returns:
  assumes ok: "accepting_env E ex" and li: "log_interval ex \<noteq> 0" and si: "status_interval ex \<noteq> 0"
    and gi: "SNAPSHOT_GENERATION_INTERVAL ex \<noteq> Some 0"
    and pop: "pop \<noteq> []" "\<forall>a \<in> set pop. 0 < fitness_value a"
  shows "\<exists>pop' st'. loop_body E ex S gen (pop, st) = Some (Inr (pop', st')) \<and>
           pop' \<noteq> [] \<and> (\<forall>a \<in> set pop'. 0 < fitness_value a)"
proof -
  from process_gen_returns[OF ok li pop] obtain pop' st1 where
    pg: "process_gen E ex pop gen st = Some (Inr (pop', st1))" by blast
  from ok have base: "0 < fitness_base E" unfolding accepting_env_def by blast
  from process_gen_population[OF pg] pop(1) base
  have pop': "pop' \<noteq> []" "\<forall>a \<in> set pop'. 0 < fitness_value a" by auto
  from reporting_returns[OF si] obtain st2 where rp: "reporting ex gen st1 = Inr st2" by blast
  from snapshotting_returns[OF gi pop'(1)] obtain st3 where
    "snapshotting E ex S gen pop' st2 = Inr st3" by blast
  with pg rp have "loop_body E ex S gen (pop, st) = Some (Inr (pop', st3))"
    by (simp add: loop_body_def)
  with pop' show ?thesis by blast
qed

lemma gen_loop_returns:
  assumes ok: "accepting_env E ex" and li: "log_interval ex \<noteq> 0" and si: "status_interval ex \<noteq> 0"
    and gi: "SNAPSHOT_GENERATION_INTERVAL ex \<noteq> Some 0"
  shows "pop \<noteq> [] \<Longrightarrow> \<forall>a \<in> set pop. 0 < fitness_value a \<Longrightarrow>
         \<exists>pop' st'. gen_loop E ex S gens (pop, st) = Some (Inr (pop', st')) \<and> pop' \<noteq> []"
proof (induction gens arbitrary: pop st)
  case Nil
  then show ?case by simp
next
  case (Cons gen gens)
  from loop_body_returns[OF ok li si gi Cons.prems] obtain pop1 st1 where
    lb: "loop_body E ex S gen (pop, st) = Some (Inr (pop1, st1))"
    and p1: "pop1 \<noteq> []" "\<forall>a \<in> set pop1. 0 < fitness_value a" by blast
  from Cons.IH[OF p1] lb show ?case by simp
qed

lemma init_run_returns:
  assumes ok: "accepting_env E ex" and li: "log_interval ex \<noteq> 0" and ps: "1 \<le> popsize ex"
  shows "\<exists>pop st. init_run E ex g0 = Inr (pop, st) \<and> pop \<noteq> [] \<and> (\<forall>a \<in> set pop. 0 < fitness_value a)"
proof -
  let ?pop0 = "replicate (nat (popsize ex)) (new_animat (init_genome ex))"
  from evaluate_pop_returns[OF ok] obtain pop where ev: "evaluate_pop E ex ?pop0 = Inr pop" by blast
  from evaluate_pop_frame(1)[OF ev] ps have ne: "pop \<noteq> []" by auto
  from record_gen_returns[OF ok li ne] obtain st1 where
    "record_gen E ex pop 0 \<lparr>rng = g0, ticks = 2, logbook = [], hall_of_fame = [], snapshot = 1,
                 snap_duration_start = 0, saved = []\<rparr> = Inr st1" by blast
  with ev have ir: "init_run E ex g0 = Inr (pop, st1\<lparr>ticks := 5, snap_duration_start := clock E 4\<rparr>)"
    by (simp add: init_run_def Let_def)
  from ok have base: "0 < fitness_base E" unfolding accepting_env_def by blast
  with init_run_population(2)[OF ir] have "\<forall>a \<in> set pop. 0 < fitness_value a" by auto
  with ir ne show ?thesis by blast
qed

lemma run_gens_returns:
  assumes ok: "accepting_env E ex" and li: "log_interval ex \<noteq> 0" and si: "status_interval ex \<noteq> 0"
    and gi: "SNAPSHOT_GENERATION_INTERVAL ex \<noteq> Some 0" and ps: "1 \<le> popsize ex"
  shows "\<exists>pop st. run_gens E ex S g0 n = Some (Inr (pop, st)) \<and> pop \<noteq> []"
proof -
  from init_run_returns[OF ok li ps] obtain pop0 st0 where
    ir: "init_run E ex g0 = Inr (pop0, st0)" and p0: "pop0 \<noteq> []" "\<forall>a \<in> set pop0. 0 < fitness_value a"
    by blast
  from gen_loop_returns[OF ok li si gi p0] ir show ?thesis by (simp add: run_gens_def)
qed

lemma main_returns:
  assumes ok: "accepting_env E ex" and li: "log_interval ex \<noteq> 0" and si: "status_interval ex \<noteq> 0"
    and gi: "SNAPSHOT_GENERATION_INTERVAL ex \<noteq> Some 0" and ps: "1 \<le> popsize ex"
    and ng: "1 \<le> ngen ex"
  shows "\<exists>pop st. main E ex S g0 = Some (Inr (pop, st))"
proof -
  from run_gens_returns[OF ok li si gi ps] obtain pop st where
    rg: "run_gens E ex S g0 (ngen ex) = Some (Inr (pop, st))" and ne: "pop \<noteq> []" by blast
  from save_data_returns[OF ne] obtain st' where
    "save_data ex S None (ngen ex) pop (st\<lparr>ticks := Suc (ticks st)\<rparr>) = Inr st'" by blast
  with rg ng show ?thesis by (simp add: main_def Let_def)
qed

lemma stub_env_accepting:
  "fitness_function ex \<noteq> ''mat'' \<Longrightarrow> accepting_env stub_env ex"
  by (simp add: accepting_env_def stub_env_def)

lemma stub_main_returns:
  assumes "fitness_function ex \<noteq> ''mat''" "log_interval ex \<noteq> 0" "status_interval ex \<noteq> 0"
    "SNAPSHOT_GENERATION_INTERVAL ex \<noteq> Some 0" "1 \<le> popsize ex" "1 \<le> ngen ex"
  shows "\<exists>pop st. main stub_env ex S g0 = Some (Inr (pop, st))"
  using main_returns[OF stub_env_accepting[OF assms(1)] assms(2-)] .

text \<open>
  C6, as the code has it. After a run that returns, the logbook holds one record for each
  generation \<open>g\<close> of \<open>0..ngen\<close> with \<open>g % log_interval = 0\<close>, in order, and no other; for a
  positive \<open>log_interval\<close> these are \<open>ngen div log_interval + 1\<close> records (the floor of
  \<open>ngen / log_interval\<close>, plus one), so \<open>\<lfloor>3 / log_interval\<rfloor> + 1\<close> in the scenario with 3
  generations.
\<close>

theorem logbook_generations:
  assumes "main E ex S g0 = Some (Inr (pop, st))"
  shows "map fst (logbook st) = filter (\<lambda>g. g mod log_interval ex = 0) [0..ngen ex] \<and>
         (0 < log_interval ex \<longrightarrow>
            int (length (logbook st)) = ngen ex div log_interval ex + 1)"
proof -
  note m = main_logbook[OF assms]
  have "int (length (logbook st)) = ngen ex div log_interval ex + 1" if "0 < log_interval ex"
    using count_logged[OF that, of "ngen ex"] m by (metis length_map order_trans zero_le_one)
  with m(2) show ?thesis by blast
qed

theorem logbook_generations_witness:
  "logged_generations (main stub_env stub_experiment False 0) = Some [0, 1, 2, 3]"
proof -
  have "\<exists>pop st. main stub_env stub_experiment False 0 = Some (Inr (pop, st))"
    by (rule stub_main_returns) (simp_all add: stub_experiment_def SNAPSHOT_GENERATION_INTERVAL_def)
  then obtain pop st where m: "main stub_env stub_experiment False 0 = Some (Inr (pop, st))"
    by blast
  have "filter (\<lambda>g::int. g mod 1 = 0) [0..3] = [0, 1, 2, 3]" by code_simp
  with logbook_generations[OF m] have "map fst (logbook st) = [0, 1, 2, 3]"
    by (simp add: stub_experiment_def)
  with m show ?thesis by (simp add: logged_generations_def)
qed

text \<open>
  C6, as the claim states it, fails: in the scenario with 3 generations and
  \<open>log_interval = 2\<close> the logbook holds the records of generations 0 and 2, two records,
  while \<open>\<lceil>3/2\<rceil> + 1\<close> is three.
\<close>

theorem logbook_counterexample:
  "logged_generations (main stub_env (stub_experiment\<lparr>log_interval := 2\<rparr>) False 0) = Some [0, 2] \<and>
   int (length [0, 2 :: int]) \<noteq> \<lceil>3 / 2 :: real\<rceil> + 1"
proof -
  let ?ex = "stub_experiment\<lparr>log_interval := 2\<rparr>"
  have "\<exists>pop st. main stub_env ?ex False 0 = Some (Inr (pop, st))"
    by (rule stub_main_returns) (simp_all add: stub_experiment_def SNAPSHOT_GENERATION_INTERVAL_def)
  then obtain pop st where m: "main stub_env ?ex False 0 = Some (Inr (pop, st))" by blast
  have "filter (\<lambda>g::int. g mod 2 = 0) [0..3] = [0, 2]" by code_simp
  with main_logbook(2)[OF m] have "map fst (logbook st) = [0, 2]"
    by (simp add: stub_experiment_def)
  with m have "logged_generations (main stub_env ?ex False 0) = Some [0, 2]"
    by (simp add: logged_generations_def)
  moreover have "\<lceil>3 / 2 :: real\<rceil> = 2" by (simp add: ceiling_eq_iff)
  ultimately show ?thesis by simp
qed

text \<open>
  C7. In a run that returns and whose wall-clock trigger never fires: with
  \<open>min_snapshots = 2\<close> and \<open>ngen = 10\<close>, \<open>save_data\<close> writes \<open>snapshot-1-gen-5\<close>, then
  \<open>snapshot-2-gen-10\<close>, then the final results into the output directory, and nothing
  else; with \<open>min_snapshots \<le> 0\<close> it writes the final results only.
\<close>

theorem snapshot_cadence:
  assumes "main E ex S g0 = Some (Inr (pop, st))" and "timer_silent E ex"
  shows "(min_snapshots ex = 2 \<and> ngen ex = 10 \<longrightarrow>
            map save_dir (saved st) = [Some (1, 5), Some (2, 10), None]) \<and>
         (min_snapshots ex \<le> 0 \<longrightarrow> map save_dir (saved st) = [None])"
proof (intro conjI impI)
  assume "min_snapshots ex = 2 \<and> ngen ex = 10"
  then have "SNAPSHOT_GENERATION_INTERVAL ex = Some 5" and "ngen ex = 10"
    by (simp_all add: SNAPSHOT_GENERATION_INTERVAL_def)
  moreover have "filter (\<lambda>g::int. g mod 5 = 0) [1..10] = [5, 10]" by code_simp
  ultimately show "map save_dir (saved st) = [Some (1, 5), Some (2, 10), None]"
    using main_written_dirs[OF assms] by simp
next
  assume "min_snapshots ex \<le> 0"
  then have "SNAPSHOT_GENERATION_INTERVAL ex = None"
    by (simp add: SNAPSHOT_GENERATION_INTERVAL_def)
  with main_written_dirs[OF assms]
  show "map save_dir (saved st) = [None]" by simp
qed

theorem snapshot_cadence_witness:
  "written_dirs (main stub_env (stub_experiment\<lparr>ngen := 10, min_snapshots := 2\<rparr>) False 0) =
     Some [Some (1, 5), Some (2, 10), None] \<and>
   written_dirs (main stub_env stub_experiment False 0) = Some [None]"
proof -
  let ?ex = "stub_experiment\<lparr>ngen := 10, min_snapshots := 2\<rparr>"
  have "\<exists>pop st. main stub_env ?ex False 0 = Some (Inr (pop, st))"
    by (rule stub_main_returns) (simp_all add: stub_experiment_def SNAPSHOT_GENERATION_INTERVAL_def)
  then obtain pop st where m: "main stub_env ?ex False 0 = Some (Inr (pop, st))" by blast
  have s: "timer_silent stub_env ?ex"
    by (simp add: timer_silent_def SNAPSHOT_TIME_INTERVAL_def stub_experiment_def)
  from snapshot_cadence[OF m s] have "map save_dir (saved st) = [Some (1, 5), Some (2, 10), None]"
    by (simp add: stub_experiment_def)
  with m have one: "written_dirs (main stub_env ?ex False 0) = Some [Some (1, 5), Some (2, 10), None]"
    by (simp add: written_dirs_def)
  have "\<exists>pop st. main stub_env stub_experiment False 0 = Some (Inr (pop, st))"
    by (rule stub_main_returns) (simp_all add: stub_experiment_def SNAPSHOT_GENERATION_INTERVAL_def)
  then obtain pop' st' where m': "main stub_env stub_experiment False 0 = Some (Inr (pop', st'))"
    by blast
  have s': "timer_silent stub_env stub_experiment"
    by (simp add: timer_silent_def SNAPSHOT_TIME_INTERVAL_def stub_experiment_def)
  from snapshot_cadence[OF m' s'] have "map save_dir (saved st') = [None]"
    by (simp add: stub_experiment_def)
  with m' have "written_dirs (main stub_env stub_experiment False 0) = Some [None]"
    by (simp add: written_dirs_def)
  with one show ?thesis by simp
qed

text \<open>
  C9. In the state that the generation loop reaches after \<open>n\<close> generations (\<open>n = 0\<close> is the
  evaluated initial population), every animat of the live population has a lineage whose
  generation numbers are \<open>n, n - 1, ..., 0\<close>: the chain of parent references has \<open>n\<close> steps,
  the lineage has \<open>n + 1\<close> members, and it ends at an animat without parent.
\<close>

theorem lineage_invariant:
  assumes "run_gens E ex S g0 n = Some (Inr (pop, st))" and "0 \<le> n"
  shows "\<forall>a \<in> set pop. map gen_of (lineage a) = rev [0..n] \<and>
            length (lineage a) = nat n + 1 \<and> parent (last (lineage a)) = None"
  using assms(2,1)
proof (induction n arbitrary: pop st rule: int_ge_induct)
  case base
  then have ir: "init_run E ex g0 = Inr (pop, st)"
    by (cases "init_run E ex g0") (simp_all add: run_gens_def)
  from init_run_population(2)[OF ir] show ?case
    by (auto simp: lineage_unfold[of a for a])
next
  case (step n)
  have up: "[1..n + 1] = [1..n] @ [n + 1]" using step.hyps by (simp add: upto_rec2)
  from step.prems obtain pop1 st1 where
    rg: "run_gens E ex S g0 n = Some (Inr (pop1, st1))"
    and lb: "loop_body E ex S (n + 1) (pop1, st1) = Some (Inr (pop, st))"
    unfolding run_gens_def up
    by (cases "init_run E ex g0") (auto simp: gen_loop_append bindr_Inr_iff)
  note ih = step.IH[OF rg]
  have up0: "rev [0..n + 1] = (n + 1) # rev [0..n]" using step.hyps by (simp add: upto_rec2)
  show ?case
  proof
    fix a assume "a \<in> set pop"
    with loop_body_population(2)[OF lb] obtain p where
      g: "gen_of a = n + 1" and p: "p \<in> set pop1" "parent a = Some p" by blast
    from ih p(1) have l: "map gen_of (lineage p) = rev [0..n]"
        "length (lineage p) = nat n + 1" "parent (last (lineage p)) = None" by auto
    have la: "lineage a = a # lineage p" using p(2) by (subst lineage_unfold) simp
    have ne: "lineage p \<noteq> []" using l(2) by auto
    show "map gen_of (lineage a) = rev [0..n + 1] \<and>
            length (lineage a) = nat (n + 1) + 1 \<and> parent (last (lineage a)) = None"
      unfolding la up0 using g l ne step.hyps by (simp add: nat_add_distrib)
  qed
qed

theorem lineage_invariant_witness:
  "\<exists>pop st. run_gens stub_env stub_experiment False 0 3 = Some (Inr (pop, st)) \<and>
     map (\<lambda>a. length (lineage a)) pop = [4, 4, 4, 4]"
proof -
  have "\<exists>pop st. run_gens stub_env stub_experiment False 0 3 = Some (Inr (pop, st)) \<and> pop \<noteq> []"
    by (rule run_gens_returns[OF stub_env_accepting])
      (simp_all add: stub_experiment_def SNAPSHOT_GENERATION_INTERVAL_def)
  then obtain pop st where rg: "run_gens stub_env stub_experiment False 0 3 = Some (Inr (pop, st))"
    by blast
  from lineage_invariant[OF rg] have "\<forall>a \<in> set pop. length (lineage a) = 4" by simp
  then have "map (\<lambda>a. length (lineage a)) pop = map (\<lambda>a. 4) pop" by simp
  moreover from run_gens_popsize[OF rg] have "length pop = 4" by (simp add: stub_experiment_def)
  ultimately have "map (\<lambda>a. length (lineage a)) pop = replicate 4 4"
    by (simp add: map_replicate_const)
  also have "replicate 4 (4::nat) = [4, 4, 4, 4]" by (simp add: numeral_eq_Suc)
  finally have "map (\<lambda>a. length (lineage a)) pop = [4, 4, 4, 4]" .
  with rg show ?thesis by (intro exI[of _ pop] exI[of _ st] conjI)
qed

end
